theory Spec2Isabelle
  imports Main "HOL-Library.AList"
begin

section \<open>Metriscope: the exposition parser and the metric index\<close>

text \<open>
  A shallow embedding of \<^verbatim>\<open>src/main.py\<close> (class \<^verbatim>\<open>MetricsExplorer\<close>).
  A Python \<^verbatim>\<open>str\<close> is a \<^typ>\<open>string\<close>; each \<^typ>\<open>char\<close> stands for the code point
  of the same number (0 to 255), which fixes what \<^verbatim>\<open>str.isspace\<close>, \<^verbatim>\<open>str.lower\<close> and
  the regular expression class \<^verbatim>\<open>\w\<close> say about it. A \<^verbatim>\<open>dict\<close> is an association
  list in insertion order. An exception is a value of type \<open>error\<close>.
\<close>

subsection \<open>Exceptions\<close>

datatype error = IndexError | ValueError | TransportError

subsection \<open>String primitives of Python used by the source\<close>

definition startswith :: "string \<Rightarrow> string \<Rightarrow> bool" where
  \<comment> \<open>\<^verbatim>\<open>s.startswith(p)\<close>\<close>
  "startswith s p = (take (length p) s = p)"

definition isspace :: "char \<Rightarrow> bool" where
  \<comment> \<open>the code points below 256 that \<^verbatim>\<open>str.strip()\<close> removes\<close>
  "isspace c = (let n = (of_char c :: nat) in
      (9 \<le> n \<and> n \<le> 13) \<or> (28 \<le> n \<and> n \<le> 32) \<or> n = 133 \<or> n = 160)"

definition strip :: "string \<Rightarrow> string" where
  \<comment> \<open>\<^verbatim>\<open>s.strip()\<close>\<close>
  "strip s = rev (dropWhile isspace (rev (dropWhile isspace s)))"

fun str_split :: "char \<Rightarrow> string \<Rightarrow> string list" where
  \<comment> \<open>\<^verbatim>\<open>s.split(c)\<close> for a one-character separator: never an empty list\<close>
  "str_split c [] = [[]]"
| "str_split c (x # xs) =
     (if x = c then [] # str_split c xs
      else (case str_split c xs of t # ts \<Rightarrow> (x # t) # ts | [] \<Rightarrow> [[x]]))"

definition split_max1 :: "char \<Rightarrow> string \<Rightarrow> string list" where
  \<comment> \<open>\<^verbatim>\<open>s.split(c, 1)\<close>: at most one split, at the first separator\<close>
  "split_max1 c s =
     (if c \<in> set s then [takeWhile (\<lambda>x. x \<noteq> c) s, tl (dropWhile (\<lambda>x. x \<noteq> c) s)]
      else [s])"

definition item :: "'a list \<Rightarrow> nat \<Rightarrow> error + 'a" where
  \<comment> \<open>\<^verbatim>\<open>xs[i]\<close> for \<open>i \<ge> 0\<close>: out of range raises IndexError\<close>
  "item xs i = (if i < length xs then Inr (xs ! i) else Inl IndexError)"

definition index :: "string \<Rightarrow> char \<Rightarrow> error + nat" where
  \<comment> \<open>\<^verbatim>\<open>s.index(c)\<close>: position of the first \<open>c\<close>, ValueError when there is none\<close>
  "index s c =
     (if c \<in> set s then Inr (length (takeWhile (\<lambda>x. x \<noteq> c) s)) else Inl ValueError)"

definition rindex :: "string \<Rightarrow> char \<Rightarrow> error + nat" where
  \<comment> \<open>\<^verbatim>\<open>s.rindex(c)\<close>: position of the last \<open>c\<close>, ValueError when there is none\<close>
  "rindex s c =
     (if c \<in> set s then Inr (length s - 1 - length (takeWhile (\<lambda>x. x \<noteq> c) (rev s)))
      else Inl ValueError)"

definition slice :: "string \<Rightarrow> nat \<Rightarrow> nat \<Rightarrow> string" where
  \<comment> \<open>\<^verbatim>\<open>s[a:b]\<close> for \<open>a, b \<ge> 0\<close>: empty when \<open>b \<le> a\<close>, never raises\<close>
  "slice s a b = take (b - a) (drop a s)"

definition lower_char :: "char \<Rightarrow> char" where
  "lower_char c = (let n = (of_char c :: nat) in
      if (65 \<le> n \<and> n \<le> 90) \<or> (192 \<le> n \<and> n \<le> 214) \<or> (216 \<le> n \<and> n \<le> 222)
      then char_of (n + 32) else c)"

definition lower :: "string \<Rightarrow> string" where
  \<comment> \<open>\<^verbatim>\<open>s.lower()\<close>\<close>
  "lower s = map lower_char s"

fun str_in :: "string \<Rightarrow> string \<Rightarrow> bool" where
  \<comment> \<open>\<^verbatim>\<open>sub in s\<close>: \<open>sub\<close> occurs in \<open>s\<close> as a contiguous substring\<close>
  "str_in sub [] = (sub = [])"
| "str_in sub (x # xs) = (startswith (x # xs) sub \<or> str_in sub xs)"

subsection \<open>The label pattern\<close>

definition word_char :: "char \<Rightarrow> bool" where
  \<comment> \<open>\<^verbatim>\<open>\w\<close> of Python's \<^verbatim>\<open>re\<close> on a \<^verbatim>\<open>str\<close>, for code points below 256\<close>
  "word_char c = (let n = (of_char c :: nat) in
      (48 \<le> n \<and> n \<le> 57) \<or> (65 \<le> n \<and> n \<le> 90) \<or> n = 95 \<or> (97 \<le> n \<and> n \<le> 122)
      \<or> n = 170 \<or> n = 178 \<or> n = 179 \<or> n = 181 \<or> n = 185 \<or> n = 186
      \<or> (188 \<le> n \<and> n \<le> 190) \<or> (192 \<le> n \<and> n \<le> 214) \<or> (216 \<le> n \<and> n \<le> 246)
      \<or> (248 \<le> n \<and> n \<le> 255))"

definition match_at :: "string \<Rightarrow> (string \<times> string \<times> string) option" where
  \<comment> \<open>a match of \<^verbatim>\<open>(\w+)="([^"]*)"\<close> starting at the head of \<open>s\<close>: the two groups and
     the text after the match. Both repetitions are greedy, and giving back characters
     cannot help: the character after a shorter key is a word character, not \<^verbatim>\<open>=\<close>.\<close>
  "match_at s =
     (let k = takeWhile word_char s; r = dropWhile word_char s in
      if k = [] then None
      else (case r of
              e # q # r2 \<Rightarrow>
                if e = CHR ''='' \<and> q = CHR 0x22 then
                  (case dropWhile (\<lambda>x. x \<noteq> CHR 0x22) r2 of
                     [] \<Rightarrow> None
                   | _ # r4 \<Rightarrow> Some (k, takeWhile (\<lambda>x. x \<noteq> CHR 0x22) r2, r4))
                else None
            | _ \<Rightarrow> None))"

lemma length_dropWhile_le_str: "length (dropWhile P xs) \<le> length xs"
  by (induction xs) auto

lemma dropWhile_quote_head:
  "dropWhile (\<lambda>x. x \<noteq> c) xs = y # ys \<Longrightarrow> y = c"
  using hd_dropWhile [of "\<lambda>x. x \<noteq> c" xs] by auto

lemma match_at_SomeD:
  assumes "match_at s = Some (k, v, r)"
  shows "\<exists>r2. k = takeWhile word_char s \<and> k \<noteq> []
           \<and> dropWhile word_char s = CHR ''='' # CHR 0x22 # r2
           \<and> v = takeWhile (\<lambda>x. x \<noteq> CHR 0x22) r2
           \<and> dropWhile (\<lambda>x. x \<noteq> CHR 0x22) r2 = CHR 0x22 # r"
  using assms
  by (auto simp: match_at_def Let_def split: if_splits list.splits
      dest: dropWhile_quote_head)

lemma match_at_shorter: "match_at s = Some (k, v, r) \<Longrightarrow> length r < length s"
proof -
  assume "match_at s = Some (k, v, r)"
  then obtain r2 where r2: "dropWhile word_char s = CHR ''='' # CHR 0x22 # r2"
    and r: "dropWhile (\<lambda>x. x \<noteq> CHR 0x22) r2 = CHR 0x22 # r"
    using match_at_SomeD by blast
  have "length r < length r2"
    using length_dropWhile_le_str [of "\<lambda>x. x \<noteq> CHR 0x22" r2] r by simp
  moreover have "length r2 < length s"
    using length_dropWhile_le_str [of word_char s] r2 by simp
  ultimately show ?thesis by simp
qed

function findall :: "string \<Rightarrow> (string \<times> string) list" where
  \<comment> \<open>\<^verbatim>\<open>re.findall(r'(\w+)="([^"]*)"', s)\<close>: the leftmost matches, left to right,
     without overlap\<close>
  "findall s =
     (if s = [] then []
      else (case match_at s of
              Some (k, v, rest) \<Rightarrow> (k, v) # findall rest
            | None \<Rightarrow> findall (tl s)))"
  by pat_completeness auto
termination
  by (relation "measure length") (auto dest: match_at_shorter)

declare findall.simps [simp del]

subsection \<open>Samples, metadata and the explorer\<close>

type_synonym labels = "(string \<times> string) list"

type_synonym 'v sample = "string \<times> 'v \<times> labels \<times> string"
  \<comment> \<open>the tuple \<^verbatim>\<open>(metric_name, value, labels, help)\<close>\<close>

record meta =
  meta_help :: string
  meta_type :: string

record 'v explorer =
  metrics_cache :: "'v sample list option"
  help_cache :: "(string \<times> meta) list"
  requests :: nat
  \<comment> \<open>\<open>requests\<close> is not a field of the class: it counts the GET requests sent so far\<close>

definition init :: "'v explorer" where
  \<comment> \<open>\<^verbatim>\<open>__init__\<close>\<close>
  "init = \<lparr>metrics_cache = None, help_cache = [], requests = 0\<rparr>"

subsection \<open>\<^verbatim>\<open>fetch_metrics\<close>\<close>

text \<open>
  \<open>flt\<close> stands for Python's built-in \<^verbatim>\<open>float\<close>: \<open>None\<close> where it raises ValueError.
  \<open>srv n\<close> is the outcome of the \<open>n\<close>-th GET of \<^verbatim>\<open>/metrics\<close> (counted from 0): the body
  text, or the exception of \<^verbatim>\<open>requests.get\<close> or \<^verbatim>\<open>raise_for_status\<close>.
\<close>

definition parse_labels :: "string \<Rightarrow> labels" where
  \<comment> \<open>lines 36 and 42-43: each pair is stored under its key, overwriting\<close>
  "parse_labels labels_str = foldl (\<lambda>d (k, v). AList.update k v d) [] (findall labels_str)"

definition name_and_labels :: "string \<Rightarrow> error + (string \<times> labels)" where
  \<comment> \<open>lines 36-45\<close>
  "name_and_labels name_part =
     (if CHR ''{'' \<in> set name_part then
        (case index name_part CHR ''{'' of
           Inl e \<Rightarrow> Inl e
         | Inr i \<Rightarrow>
             (case rindex name_part CHR ''}'' of
                Inl e \<Rightarrow> Inl e
              | Inr j \<Rightarrow> Inr (take i name_part, parse_labels (slice name_part (i + 1) j))))
      else Inr (name_part, []))"

definition decode :: "(string \<Rightarrow> 'v option) \<Rightarrow> string \<Rightarrow> error + (string \<times> 'v \<times> labels)" where
  \<comment> \<open>lines 33-47, up to the tuple that is appended\<close>
  "decode flt line =
     (case str_split CHR '' '' line of
        [name_part, value_str] \<Rightarrow>
          (case name_and_labels name_part of
             Inl e \<Rightarrow> Inl e
           | Inr (metric_name, labels) \<Rightarrow>
               (case flt value_str of
                  None \<Rightarrow> Inl ValueError
                | Some v \<Rightarrow> Inr (metric_name, v, labels)))
      | _ \<Rightarrow> Inl ValueError)"

record 'v loop_state =
  metrics :: "'v sample list"
  current_help :: string
  current_type :: string
  cache :: "(string \<times> meta) list"
  \<comment> \<open>\<open>cache\<close> is \<^verbatim>\<open>self.help_cache\<close> while the loop runs\<close>

definition is_sample_line :: "string \<Rightarrow> bool" where
  \<comment> \<open>the test of line 30\<close>
  "is_sample_line line = (\<not> startswith line ''#'' \<and> strip line \<noteq> [])"

definition record_sample :: "'v loop_state \<Rightarrow> string \<times> 'v \<times> labels \<Rightarrow> 'v loop_state" where
  \<comment> \<open>lines 47-54\<close>
  "record_sample s d =
     (case d of (metric_name, v, labels) \<Rightarrow>
        s\<lparr>metrics := metrics s @ [(metric_name, v, labels, current_help s)],
          cache := (if map_of (cache s) metric_name = None
                    then cache s @ [(metric_name,
                           \<lparr>meta_help = current_help s, meta_type = current_type s\<rparr>)]
                    else cache s)\<rparr>)"

definition process_line :: "(string \<Rightarrow> 'v option) \<Rightarrow> 'v loop_state \<Rightarrow> string \<Rightarrow> error + 'v loop_state" where
  \<comment> \<open>the body of the loop, lines 26-56; \<open>Inl\<close> is an exception that leaves the loop\<close>
  "process_line flt s line =
     (if startswith line ''# HELP '' then
        (case item (split_max1 CHR '' '' (drop 7 line)) 1 of
           Inl e \<Rightarrow> Inl e
         | Inr h \<Rightarrow> Inr (s\<lparr>current_help := h\<rparr>))
      else if startswith line ''# TYPE '' then
        (case item (split_max1 CHR '' '' (drop 7 line)) 1 of
           Inl e \<Rightarrow> Inl e
         | Inr t \<Rightarrow> Inr (s\<lparr>current_type := t\<rparr>))
      else if is_sample_line line then
        (case decode flt line of
           Inl e \<Rightarrow> Inr s
         | Inr d \<Rightarrow> Inr (record_sample s d))
      else Inr s)"

fun run_lines :: "(string \<Rightarrow> 'v option) \<Rightarrow> 'v loop_state \<Rightarrow> string list \<Rightarrow> error option \<times> 'v loop_state" where
  \<comment> \<open>the \<^verbatim>\<open>for\<close> loop of line 25; on an exception, the state reached so far\<close>
  "run_lines flt s [] = (None, s)"
| "run_lines flt s (line # ls) =
     (case process_line flt s line of
        Inl e \<Rightarrow> (Some e, s)
      | Inr s' \<Rightarrow> run_lines flt s' ls)"

definition parse_text :: "(string \<Rightarrow> 'v option) \<Rightarrow> (string \<times> meta) list \<Rightarrow> string \<Rightarrow> error option \<times> 'v loop_state" where
  \<comment> \<open>lines 21-56 on the body text, from the \<^verbatim>\<open>help_cache\<close> given\<close>
  "parse_text flt hc text =
     run_lines flt \<lparr>metrics = [], current_help = [], current_type = [], cache = hc\<rparr>
       (str_split CHR 0x0A text)"

definition fetch_metrics :: "(string \<Rightarrow> 'v option) \<Rightarrow> (nat \<Rightarrow> error + string) \<Rightarrow> 'v explorer \<Rightarrow> (error + 'v sample list) \<times> 'v explorer" where
  "fetch_metrics flt srv st =
     (case srv (requests st) of
        Inl e \<Rightarrow> (Inl e, st\<lparr>requests := requests st + 1\<rparr>)
      | Inr text \<Rightarrow>
          (case parse_text flt (help_cache st) text of
             (Some e, s) \<Rightarrow> (Inl e, st\<lparr>requests := requests st + 1, help_cache := cache s\<rparr>)
           | (None, s) \<Rightarrow>
               (Inr (metrics s), st\<lparr>requests := requests st + 1, help_cache := cache s\<rparr>)))"

subsection \<open>The cache guard and the three queries\<close>

definition populate :: "(string \<Rightarrow> 'v option) \<Rightarrow> (nat \<Rightarrow> error + string) \<Rightarrow> 'v explorer \<Rightarrow> (error + 'v sample list) \<times> 'v explorer" where
  \<comment> \<open>\<^verbatim>\<open>self.metrics_cache = self.fetch_metrics()\<close>: no assignment when the call raises\<close>
  "populate flt srv st =
     (case fetch_metrics flt srv st of
        (Inl e, st') \<Rightarrow> (Inl e, st')
      | (Inr ms, st') \<Rightarrow> (Inr ms, st'\<lparr>metrics_cache := Some ms\<rparr>))"

definition ensure_cache :: "(string \<Rightarrow> 'v option) \<Rightarrow> (nat \<Rightarrow> error + string) \<Rightarrow> 'v explorer \<Rightarrow> (error + 'v sample list) \<times> 'v explorer" where
  \<comment> \<open>lines 62-63, 78-79 and 94-95: \<^verbatim>\<open>not self.metrics_cache\<close> is true of \<^verbatim>\<open>None\<close> and
     of the empty list; the value is the cache the query then reads\<close>
  "ensure_cache flt srv st =
     (case metrics_cache st of
        None \<Rightarrow> populate flt srv st
      | Some [] \<Rightarrow> populate flt srv st
      | Some (m # ms) \<Rightarrow> (Inr (m # ms), st))"

definition first_token :: "string \<Rightarrow> string" where
  \<comment> \<open>\<^verbatim>\<open>metric_name.split('_')[0]\<close>; the split is never empty\<close>
  "first_token metric_name = (case str_split CHR ''_'' metric_name of g # _ \<Rightarrow> g | [] \<Rightarrow> [])"

definition add_to_group :: "string \<Rightarrow> (string \<times> string list) list \<Rightarrow> (string \<times> string list) list" where
  \<comment> \<open>lines 68-72: a new group starts empty and then takes the name\<close>
  "add_to_group metric_name groups =
     (let g = first_token metric_name in
      case map_of groups g of
        None \<Rightarrow> groups @ [(g, [metric_name])]
      | Some ns \<Rightarrow>
          if metric_name \<in> set ns then groups
          else AList.update g (ns @ [metric_name]) groups)"

fun group_loop :: "'v sample list \<Rightarrow> (string \<times> string list) list \<Rightarrow> (string \<times> string list) list" where
  \<comment> \<open>the loop of lines 66-72\<close>
  "group_loop [] groups = groups"
| "group_loop (m # ms) groups = group_loop ms (add_to_group (fst m) groups)"

definition group_metrics :: "(string \<Rightarrow> 'v option) \<Rightarrow> (nat \<Rightarrow> error + string) \<Rightarrow> 'v explorer \<Rightarrow> (error + (string \<times> string list) list) \<times> 'v explorer" where
  "group_metrics flt srv st =
     (case ensure_cache flt srv st of
        (Inl e, st') \<Rightarrow> (Inl e, st')
      | (Inr ms, st') \<Rightarrow> (Inr (group_loop ms []), st'))"

definition matches :: "string \<Rightarrow> 'v sample \<Rightarrow> bool" where
  \<comment> \<open>the test of line 85\<close>
  "matches search_term m =
     (case m of (metric_name, value, labels, help_text) \<Rightarrow>
        str_in (lower search_term) (lower metric_name)
        \<or> str_in (lower search_term) (lower help_text))"

fun search_loop :: "string \<Rightarrow> 'v sample list \<Rightarrow> (string \<times> string \<times> 'v) list \<Rightarrow> string set \<Rightarrow> (string \<times> string \<times> 'v) list" where
  \<comment> \<open>the loop of lines 84-88 with its two accumulators \<open>results\<close> and \<open>seen\<close>\<close>
  "search_loop search_term [] results seen = results"
| "search_loop search_term ((metric_name, value, labels, help_text) # ms) results seen =
     (if matches search_term (metric_name, value, labels, help_text) then
        (if metric_name \<notin> seen then
           search_loop search_term ms (results @ [(metric_name, help_text, value)])
             (insert metric_name seen)
         else search_loop search_term ms results seen)
      else search_loop search_term ms results seen)"

definition search_metrics :: "(string \<Rightarrow> 'v option) \<Rightarrow> (nat \<Rightarrow> error + string) \<Rightarrow> 'v explorer \<Rightarrow> string \<Rightarrow> (error + (string \<times> string \<times> 'v) list) \<times> 'v explorer" where
  "search_metrics flt srv st search_term =
     (case ensure_cache flt srv st of
        (Inl e, st') \<Rightarrow> (Inl e, st')
      | (Inr ms, st') \<Rightarrow> (Inr (search_loop search_term ms [] {}), st'))"

datatype 'v printed =
  Title string | Rule | TypeLine string | HelpLine string | CurrentValues
  | ValueWithLabels 'v labels | ValueOnly 'v | NoValues
  \<comment> \<open>the lines \<^verbatim>\<open>show_metric_details\<close> prints, by the \<^verbatim>\<open>print\<close> call that writes them\<close>

definition values_of :: "'v sample list \<Rightarrow> string \<Rightarrow> (string \<times> 'v \<times> labels) list" where
  \<comment> \<open>the list \<open>values\<close> of line 105\<close>
  "values_of ms metric_name =
     map (\<lambda>(name, value, labels, h). (metric_name, value, labels))
       (filter (\<lambda>(name, value, labels, h). name = metric_name) ms)"

definition details_lines :: "'v sample list \<Rightarrow> (string \<times> meta) list \<Rightarrow> string \<Rightarrow> 'v printed list" where
  \<comment> \<open>lines 97-114\<close>
  "details_lines ms hc metric_name =
     [Title metric_name, Rule]
     @ (case map_of hc metric_name of
          Some m \<Rightarrow> [TypeLine (meta_type m), HelpLine (meta_help m)]
        | None \<Rightarrow> [])
     @ [CurrentValues]
     @ (if values_of ms metric_name \<noteq> [] then
          map (\<lambda>(n, value, labels).
                 if labels \<noteq> [] then ValueWithLabels value labels else ValueOnly value)
            (values_of ms metric_name)
        else [NoValues])"

definition show_metric_details :: "(string \<Rightarrow> 'v option) \<Rightarrow> (nat \<Rightarrow> error + string) \<Rightarrow> 'v explorer \<Rightarrow> string \<Rightarrow> (error + 'v printed list) \<times> 'v explorer" where
  "show_metric_details flt srv st metric_name =
     (case ensure_cache flt srv st of
        (Inl e, st') \<Rightarrow> (Inl e, st')
      | (Inr ms, st') \<Rightarrow> (Inr (details_lines ms (help_cache st') metric_name), st'))"

definition digits_float :: "string \<Rightarrow> nat option" where
  \<comment> \<open>\<^verbatim>\<open>float\<close> on the unsigned decimal integer literals, which is all the worked examples
     below need of it: the number a non-empty string of ASCII digits denotes. On other
     tokens this instance says \<open>None\<close>, which \<^verbatim>\<open>float\<close> does not always do.\<close>
  "digits_float s =
     (if s \<noteq> [] \<and> list_all (\<lambda>c. 48 \<le> (of_char c :: nat) \<and> (of_char c :: nat) \<le> 57) s
      then Some (foldl (\<lambda>n c. 10 * n + (of_char c - 48)) 0 s)
      else None)"

subsection \<open>Vocabulary for statements about a document\<close>

text \<open>
  The definitions of this subsection are not functions of the source: they name what a
  document contains, so that the theorems can say what the parser made of it.
\<close>

definition is_help_line :: "string \<Rightarrow> bool" where
  \<comment> \<open>the line takes the branch of line 26\<close>
  "is_help_line line = startswith line ''# HELP ''"

definition is_type_line :: "string \<Rightarrow> bool" where
  \<comment> \<open>the line takes the branch of line 28\<close>
  "is_type_line line = (\<not> startswith line ''# HELP '' \<and> startswith line ''# TYPE '')"

definition payload :: "string \<Rightarrow> string" where
  \<comment> \<open>the text of a HELP or TYPE line: what follows the first space after the marker\<close>
  "payload line = tl (dropWhile (\<lambda>c. c \<noteq> CHR '' '') (drop 7 line))"

definition help_at :: "string \<Rightarrow> string list \<Rightarrow> string" where
  \<comment> \<open>the text of the last HELP line among \<open>ls\<close>, whatever name it mentions; \<open>h0\<close> when
     there is none\<close>
  "help_at h0 ls =
     (if filter is_help_line ls = [] then h0 else payload (last (filter is_help_line ls)))"

definition type_at :: "string \<Rightarrow> string list \<Rightarrow> string" where
  \<comment> \<open>the same for the last TYPE line\<close>
  "type_at t0 ls =
     (if filter is_type_line ls = [] then t0 else payload (last (filter is_type_line ls)))"

definition sample_of :: "(string \<Rightarrow> 'v option) \<Rightarrow> string \<Rightarrow> (string \<times> 'v \<times> labels) option" where
  \<comment> \<open>what a line contributes: its decoded sample when it takes the sample branch and
     decodes\<close>
  "sample_of flt line =
     (if is_sample_line line
      then (case decode flt line of Inl e \<Rightarrow> None | Inr d \<Rightarrow> Some d)
      else None)"

definition samples_of :: "(string \<Rightarrow> 'v option) \<Rightarrow> string \<Rightarrow> string list \<Rightarrow> 'v sample list" where
  \<comment> \<open>the samples of the lines \<open>ls\<close> in document order, each with the text of the last
     HELP line before it\<close>
  "samples_of flt h0 ls =
     concat (map (\<lambda>i. case sample_of flt (ls ! i) of
                         Some (n, v, lb) \<Rightarrow> [(n, v, lb, help_at h0 (take i ls))]
                       | None \<Rightarrow> [])
               [0..<length ls])"

definition example_doc :: string where
  \<comment> \<open>the five-line document of the specification's first-seen-wins example\<close>
  "example_doc =
     ''# HELP x first'' @ [CHR 0x0A] @ ''# TYPE x counter'' @ [CHR 0x0A] @ ''x 1''
     @ [CHR 0x0A] @ ''# HELP x second'' @ [CHR 0x0A] @ ''x 2''"

definition first_seen :: "'a list \<Rightarrow> 'a list" where
  \<comment> \<open>the distinct elements of a list, each at the place of its first occurrence
     (\<open>remdups\<close> keeps last occurrences, hence the two reversals)\<close>
  "first_seen xs = rev (remdups (rev xs))"

definition ex_samples :: "nat sample list" where
  \<comment> \<open>a cache holding the three names of the specification's grouping example, one of
     them twice\<close>
  "ex_samples =
     [(''node_cpu_seconds_total'', 1, [(''cpu'', ''0'')], ''CPU time''),
      (''node_memory_bytes'', 2, [], ''Memory''),
      (''node_cpu_seconds_total'', 3, [(''cpu'', ''1'')], ''CPU time''),
      (''go_gc_duration'', 4, [], ''GC'')]"

definition ex_index :: "nat explorer" where
  "ex_index = \<lparr>metrics_cache = Some ex_samples, help_cache = [], requests = 1\<rparr>"

definition no_server :: "nat \<Rightarrow> error + string" where
  \<comment> \<open>an endpoint that fails every request\<close>
  "no_server n = Inl TransportError"

definition serve_example :: "nat \<Rightarrow> error + string" where
  \<comment> \<open>an endpoint that answers every request with \<open>example_doc\<close>\<close>
  "serve_example n = Inr example_doc"

definition example_index :: "nat explorer" where
  \<comment> \<open>the explorer after its first query against \<open>serve_example\<close>\<close>
  "example_index =
     \<lparr>metrics_cache = Some [(''x'', 1, [], ''first''), (''x'', 2, [], ''second'')],
      help_cache = [(''x'', \<lparr>meta_help = ''first'', meta_type = ''counter''\<rparr>)],
      requests = 1\<rparr>"

definition empty_then_down :: "nat \<Rightarrow> error + string" where
  \<comment> \<open>an endpoint whose first answer is the empty text and which fails every later
     request\<close>
  "empty_then_down n = (if n = 0 then Inr [] else Inl TransportError)"

subsection \<open>Label lists as text\<close>

definition render_pair :: "string \<times> string \<Rightarrow> string" where
  \<comment> \<open>the text \<^verbatim>\<open>key="value"\<close> of a pair\<close>
  "render_pair p = fst p @ [CHR ''='', CHR 0x22] @ snd p @ [CHR 0x22]"

fun render_labels :: "(string \<times> string) list \<Rightarrow> string" where
  \<comment> \<open>the pairs as text, in order, separated by commas\<close>
  "render_labels [] = []"
| "render_labels [p] = render_pair p"
| "render_labels (p # q # ps) = render_pair p @ CHR '','' # render_labels (q # ps)"

definition well_formed_pair :: "string \<times> string \<Rightarrow> bool" where
  \<comment> \<open>what the pattern of line 42 takes as one pair: a non-empty key of word characters
     and a value without any double quote\<close>
  "well_formed_pair p =
     (fst p \<noteq> [] \<and> list_all word_char (fst p) \<and> CHR 0x22 \<notin> set (snd p))"

fun spec_value_ok :: "string \<Rightarrow> bool" where
  \<comment> \<open>the specification's wording of a label value, not the source's: any characters
     except an unescaped double quote, a backslash escaping the character after it\<close>
  "spec_value_ok [] = True"
| "spec_value_ok (c # cs) =
     (if c = CHR 0x5C then (case cs of [] \<Rightarrow> False | d # ds \<Rightarrow> spec_value_ok ds)
      else c \<noteq> CHR 0x22 \<and> spec_value_ok cs)"

definition ex_pairs :: "(string \<times> string) list" where
  \<comment> \<open>three pairs, the key \<^verbatim>\<open>a\<close> twice\<close>
  "ex_pairs = [(''a'', ''1''), (''b'', ''2''), (''a'', ''3'')]"

definition ex_label_line :: string where
  \<comment> \<open>the sample line \<^verbatim>\<open>m{a="1",b="2",a="3"} 7\<close>\<close>
  "ex_label_line = ''m{'' @ render_labels ex_pairs @ ''} 7''"

definition escaped_value :: string where
  \<comment> \<open>the four characters \<^verbatim>\<open>x\"y\<close>: a value with an escaped double quote\<close>
  "escaped_value = [CHR ''x'', CHR 0x5C, CHR 0x22, CHR ''y'']"

subsection \<open>A caller's sequence of queries\<close>

datatype query = GroupQuery | SearchQuery string | DetailsQuery string
  \<comment> \<open>a call of \<^verbatim>\<open>group_metrics\<close>, \<^verbatim>\<open>search_metrics\<close> or \<^verbatim>\<open>show_metric_details\<close>\<close>

datatype 'v answer =
  Groups "(string \<times> string list) list"
  | Hits "(string \<times> string \<times> 'v) list"
  | Printed "'v printed list"

definition run_query :: "(string \<Rightarrow> 'v option) \<Rightarrow> (nat \<Rightarrow> error + string) \<Rightarrow> 'v explorer \<Rightarrow> query \<Rightarrow> (error + 'v answer) \<times> 'v explorer" where
  \<comment> \<open>one call, with its result or exception and the explorer afterwards\<close>
  "run_query flt srv st q =
     (case q of
        GroupQuery \<Rightarrow>
          (case group_metrics flt srv st of
             (Inl e, st') \<Rightarrow> (Inl e, st') | (Inr g, st') \<Rightarrow> (Inr (Groups g), st'))
      | SearchQuery t \<Rightarrow>
          (case search_metrics flt srv st t of
             (Inl e, st') \<Rightarrow> (Inl e, st') | (Inr r, st') \<Rightarrow> (Inr (Hits r), st'))
      | DetailsQuery n \<Rightarrow>
          (case show_metric_details flt srv st n of
             (Inl e, st') \<Rightarrow> (Inl e, st') | (Inr out, st') \<Rightarrow> (Inr (Printed out), st')))"

fun run_queries :: "(string \<Rightarrow> 'v option) \<Rightarrow> (nat \<Rightarrow> error + string) \<Rightarrow> 'v explorer \<Rightarrow> query list \<Rightarrow> (error + 'v answer) list \<times> 'v explorer" where
  \<comment> \<open>the calls one after the other on the same explorer\<close>
  "run_queries flt srv st [] = ([], st)"
| "run_queries flt srv st (q # qs) =
     (case run_query flt srv st q of
        (r, st') \<Rightarrow> (case run_queries flt srv st' qs of (rs, st'') \<Rightarrow> (r # rs, st'')))"

definition answer_from :: "'v sample list \<Rightarrow> (string \<times> meta) list \<Rightarrow> query \<Rightarrow> 'v answer" where
  \<comment> \<open>what a call computes from the sample list \<open>ms\<close> and the metadata \<open>hc\<close> alone\<close>
  "answer_from ms hc q =
     (case q of
        GroupQuery \<Rightarrow> Groups (group_loop ms [])
      | SearchQuery t \<Rightarrow> Hits (search_loop t ms [] {})
      | DetailsQuery n \<Rightarrow> Printed (details_lines ms hc n))"

definition empty_then_x :: "nat \<Rightarrow> error + string" where
  \<comment> \<open>an endpoint whose first answer is the empty text and whose later answers are the
     one-line text \<^verbatim>\<open>x 1\<close>\<close>
  "empty_then_x n = (if n = 0 then Inr [] else Inr ''x 1'')"

subsection \<open>Loop invariants\<close>

definition group_inv :: "(string \<times> string list) list \<Rightarrow> string list \<Rightarrow> bool" where
  \<comment> \<open>\<open>groups\<close> after the loop of \<^verbatim>\<open>group_metrics\<close> has seen the names \<open>names\<close>\<close>
  "group_inv groups names =
     (distinct (map fst groups)
      \<and> (\<forall>p. map_of groups p =
             (if filter (\<lambda>n. first_token n = p) names = [] then None
              else Some (first_seen (filter (\<lambda>n. first_token n = p) names)))))"

definition search_inv :: "string \<Rightarrow> 'v sample list \<Rightarrow> (string \<times> string \<times> 'v) list \<Rightarrow> string set \<Rightarrow> bool" where
  \<comment> \<open>\<open>results\<close> and \<open>seen\<close> after the loop of \<^verbatim>\<open>search_metrics\<close> has gone through the
     samples \<open>visited\<close>\<close>
  "search_inv t visited results seen =
     (seen = fst ` set results
      \<and> map fst results = first_seen (map fst (filter (matches t) visited))
      \<and> (\<forall>r\<in>set results. \<exists>l.
            find (\<lambda>s. fst s = fst r \<and> matches t s) visited
              = Some (fst r, snd (snd r), l, fst (snd r))))"

section \<open>Facts about the string primitives and the line decoder\<close>

lemma str_split_not_Nil: "str_split c s \<noteq> []"
  by (induction s) (auto split: list.splits)

lemma str_split_head: "str_split c s = t # ts \<Longrightarrow> t = takeWhile (\<lambda>x. x \<noteq> c) s"
proof (induction s arbitrary: t ts)
  case Nil
  then show ?case by simp
next
  case (Cons x xs)
  then show ?case
    using str_split_not_Nil [of c xs] by (auto split: if_splits list.splits)
qed

lemma startswith_hash:
  "startswith line ''# HELP '' \<or> startswith line ''# TYPE '' \<Longrightarrow> startswith line ''#''"
  by (cases line) (auto simp: startswith_def)

lemma sample_line_step:
  "is_sample_line line \<Longrightarrow>
     process_line flt s line =
       (case decode flt line of Inl e \<Rightarrow> Inr s | Inr d \<Rightarrow> Inr (record_sample s d))"
  using startswith_hash [of line] by (auto simp: process_line_def is_sample_line_def)

lemma name_and_labels_fails:
  "(\<exists>e. name_and_labels np = Inl e) = (CHR ''{'' \<in> set np \<and> CHR ''}'' \<notin> set np)"
  by (auto simp: name_and_labels_def index_def rindex_def split: sum.splits)

lemma name_and_labels_ok:
  "name_and_labels np = Inr r \<Longrightarrow> CHR ''{'' \<in> set np \<Longrightarrow> CHR ''}'' \<in> set np"
  using name_and_labels_fails [of np] by auto

lemma decode_fails:
  "(\<exists>e. decode flt line = Inl e) =
     (case str_split CHR '' '' line of
        [np, vs] \<Rightarrow> (CHR ''{'' \<in> set np \<and> CHR ''}'' \<notin> set np) \<or> flt vs = None
      | _ \<Rightarrow> True)"
proof (cases "str_split CHR '' '' line")
  case Nil
  then show ?thesis by (simp add: decode_def)
next
  case c1: (Cons np r1)
  show ?thesis
  proof (cases r1)
    case Nil
    with c1 show ?thesis by (simp add: decode_def)
  next
    case c2: (Cons vs r2)
    show ?thesis
    proof (cases r2)
      case Nil
      show ?thesis
      proof (cases "name_and_labels np")
        case (Inl e)
        then have "CHR ''{'' \<in> set np \<and> CHR ''}'' \<notin> set np"
          using name_and_labels_fails [of np] by blast
        with Inl c1 c2 Nil show ?thesis by (simp add: decode_def)
      next
        case (Inr r)
        then have "\<not> (CHR ''{'' \<in> set np \<and> CHR ''}'' \<notin> set np)"
          using name_and_labels_ok by blast
        with Inr c1 c2 Nil show ?thesis
          by (cases r) (auto simp: decode_def split: option.splits)
      qed
    next
      case (Cons x r3)
      with c1 c2 show ?thesis by (simp add: decode_def)
    qed
  qed
qed

lemma rindex_before:
  assumes "c \<in> set np" and "c \<notin> set (dropWhile P np)"
  shows "\<exists>j. rindex np c = Inr j \<and> j \<le> length (takeWhile P np)"
proof -
  let ?t = "takeWhile P np" and ?d = "dropWhile P np"
  have "rev np = rev ?d @ rev ?t"
    by (metis rev_append takeWhile_dropWhile_id)
  moreover have "\<forall>x\<in>set (rev ?d). x \<noteq> c"
    using assms(2) by auto
  ultimately have "takeWhile (\<lambda>x. x \<noteq> c) (rev np)
      = rev ?d @ takeWhile (\<lambda>x. x \<noteq> c) (rev ?t)"
    using takeWhile_append2 [of "rev ?d" "\<lambda>x. x \<noteq> c" "rev ?t"] by simp
  then have "length ?d \<le> length (takeWhile (\<lambda>x. x \<noteq> c) (rev np))"
    by simp
  moreover have "length np = length ?t + length ?d"
    by (metis length_append takeWhile_dropWhile_id)
  ultimately show ?thesis
    using assms(1) by (simp add: rindex_def)
qed

lemma parse_labels_Nil: "parse_labels [] = []"
  by (simp add: parse_labels_def findall.simps)

lemma name_and_labels_braces:
  assumes "CHR ''{'' \<in> set np" and "CHR ''}'' \<in> set np"
  shows "\<exists>labels. name_and_labels np = Inr (takeWhile (\<lambda>c. c \<noteq> CHR ''{'') np, labels)
           \<and> (CHR ''}'' \<notin> set (dropWhile (\<lambda>c. c \<noteq> CHR ''{'') np) \<longrightarrow> labels = [])"
proof (cases "CHR ''}'' \<in> set (dropWhile (\<lambda>c. c \<noteq> CHR ''{'') np)")
  case True
  with assms show ?thesis
    by (simp add: name_and_labels_def index_def rindex_def takeWhile_eq_take [symmetric])
next
  case False
  then obtain j where j: "rindex np CHR ''}'' = Inr j"
      and le: "j \<le> length (takeWhile (\<lambda>c. c \<noteq> CHR ''{'') np)"
    using rindex_before [OF assms(2), of "\<lambda>c. c \<noteq> CHR ''{''"] by blast
  with assms False show ?thesis
    by (simp add: name_and_labels_def index_def slice_def parse_labels_Nil
        takeWhile_eq_take [symmetric])
qed

lemma not_word_eq: "\<not> word_char CHR ''=''"
  by (simp add: word_char_def)

lemma not_word_comma: "\<not> word_char CHR '',''"
  by (simp add: word_char_def)

lemma match_at_pair:
  assumes "well_formed_pair (k, v)"
  shows "match_at (render_pair (k, v) @ rest) = Some (k, v, rest)"
proof -
  have k: "k \<noteq> []" "\<forall>x\<in>set k. word_char x" and v: "\<forall>x\<in>set v. x \<noteq> CHR 0x22"
    using assms by (auto simp: well_formed_pair_def list_all_iff)
  let ?r = "CHR ''='' # CHR 0x22 # v @ CHR 0x22 # rest"
  have s: "render_pair (k, v) @ rest = k @ ?r"
    by (simp add: render_pair_def)
  have t: "takeWhile word_char (k @ ?r) = k"
    using k(2) not_word_eq by (simp add: takeWhile_append2)
  have d: "dropWhile word_char (k @ ?r) = ?r"
    using k(2) not_word_eq by (simp add: dropWhile_append2)
  have tv: "takeWhile (\<lambda>x. x \<noteq> CHR 0x22) (v @ CHR 0x22 # rest) = v"
    using v by (simp add: takeWhile_append2)
  have dv: "dropWhile (\<lambda>x. x \<noteq> CHR 0x22) (v @ CHR 0x22 # rest) = CHR 0x22 # rest"
    using v by (simp add: dropWhile_append2)
  show ?thesis
    unfolding s match_at_def using k(1) by (simp add: t d tv dv Let_def)
qed

lemma findall_pair:
  "well_formed_pair (k, v) \<Longrightarrow> findall (render_pair (k, v) @ rest) = (k, v) # findall rest"
  using match_at_pair [of k v rest]
  by (subst findall.simps) (simp add: render_pair_def)

lemma findall_comma: "findall (CHR '','' # s) = findall s"
  by (subst findall.simps) (simp add: match_at_def not_word_comma)

lemma findall_Nil: "findall [] = []"
  by (simp add: findall.simps)

lemma findall_render:
  "\<forall>p\<in>set ps. well_formed_pair p \<Longrightarrow> findall (render_labels ps) = ps"
proof (induction ps rule: render_labels.induct)
  case 1
  then show ?case by (simp add: findall_Nil)
next
  case (2 p)
  then have "well_formed_pair (fst p, snd p)" by simp
  from findall_pair [OF this, of "[]"] show ?case
    by (simp add: findall_Nil)
next
  case (3 p q ps)
  then have "well_formed_pair (fst p, snd p)" by simp
  from findall_pair [OF this, of "CHR '','' # render_labels (q # ps)"] 3 show ?case
    by (simp add: findall_comma)
qed

lemma map_of_fold_update:
  "map_of (foldl (\<lambda>d (k, v). AList.update k v d) d ps) = map_of d ++ map_of (rev ps)"
proof (induction ps arbitrary: d)
  case Nil
  then show ?case by simp
next
  case (Cons p ps)
  obtain k v where p: "p = (k, v)" by (cases p) auto
  have "map_of (AList.update k v d) ++ map_of (rev ps)
      = map_of d ++ (map_of [(k, v)] ++ map_of (rev ps))"
    by (simp add: update_conv' map_add_assoc [symmetric] map_add_upd_left [symmetric] fun_eq_iff map_add_def split: option.splits)
  with Cons.IH [of "AList.update k v d"] p show ?case
    by (simp add: map_of_append)
qed

lemma parse_labels_last_wins:
  "map_of (parse_labels s) = map_of (rev (findall s))"
  by (simp add: parse_labels_def map_of_fold_update)

lemma name_and_labels_block:
  assumes "CHR ''{'' \<notin> set name" and "CHR ''}'' \<notin> set tail"
  shows "name_and_labels (name @ CHR ''{'' # raw @ CHR ''}'' # tail) = Inr (name, parse_labels raw)"
proof -
  let ?np = "name @ CHR ''{'' # raw @ CHR ''}'' # tail"
  have n: "\<forall>x\<in>set name. x \<noteq> CHR ''{''" and t: "\<forall>x\<in>set (rev tail). x \<noteq> CHR ''}''"
    using assms by auto
  have i: "index ?np CHR ''{'' = Inr (length name)"
    using n by (simp add: index_def takeWhile_append2)
  have "rev ?np = rev tail @ CHR ''}'' # rev (name @ CHR ''{'' # raw)"
    by simp
  then have "takeWhile (\<lambda>x. x \<noteq> CHR ''}'') (rev ?np) = rev tail"
    using t takeWhile_append2 [of "rev tail" "\<lambda>x. x \<noteq> CHR ''}''"
        "CHR ''}'' # rev (name @ CHR ''{'' # raw)"]
    by (simp del: rev_append rev.simps set_rev)
  then have j: "rindex ?np CHR ''}'' = Inr (length name + 1 + length raw)"
    by (simp add: rindex_def)
  have "slice ?np (length name + 1) (length name + 1 + length raw) = raw"
    by (simp add: slice_def)
  with i j show ?thesis
    by (simp add: name_and_labels_def)
qed


lemma distinct_fold_update:
  "distinct (map fst d) \<Longrightarrow>
     distinct (map fst (foldl (\<lambda>d (k, v). AList.update k v d) d ps))"
  by (induction ps arbitrary: d) (auto simp: distinct_update)

lemma parse_labels_distinct: "distinct (map fst (parse_labels s))"
  by (simp add: parse_labels_def distinct_fold_update)

lemma plain_sample_line: "is_sample_line ''x 1''"
  by (simp add: is_sample_line_def startswith_def strip_def isspace_def)

lemma decode_plain_sample: "decode digits_float ''x 1'' = Inr (''x'', 1, [])"
  by (simp add: decode_def name_and_labels_def digits_float_def)

section \<open>Facts about the parsing loop\<close>

lemma help_at_snoc:
  "help_at h0 (ls @ [l]) = (if is_help_line l then payload l else help_at h0 ls)"
  by (simp add: help_at_def)

lemma type_at_snoc:
  "type_at t0 (ls @ [l]) = (if is_type_line l then payload l else type_at t0 ls)"
  by (simp add: type_at_def)

lemma item_split_payload:
  "item (split_max1 CHR '' '' (drop 7 line)) 1 = Inr h \<Longrightarrow> h = payload line"
  by (auto simp: item_def split_max1_def payload_def split: if_splits)

lemma process_line_effect:
  assumes "process_line flt s1 l = Inr s"
  shows "current_help s = (if is_help_line l then payload l else current_help s1)"
    and "current_type s = (if is_type_line l then payload l else current_type s1)"
    and "metrics s = metrics s1 @
           (case sample_of flt l of
              Some (n, v, lb) \<Rightarrow> [(n, v, lb, current_help s1)] | None \<Rightarrow> [])"
    and "cache s =
           (case sample_of flt l of
              Some (n, v, lb) \<Rightarrow>
                if map_of (cache s1) n = None
                then cache s1 @ [(n, \<lparr>meta_help = current_help s1, meta_type = current_type s1\<rparr>)]
                else cache s1
            | None \<Rightarrow> cache s1)"
proof -
  consider (h) "startswith l ''# HELP ''"
    | (t) "\<not> startswith l ''# HELP ''" "startswith l ''# TYPE ''"
    | (s) "\<not> startswith l ''# HELP ''" "\<not> startswith l ''# TYPE ''" "is_sample_line l"
    | (n) "\<not> startswith l ''# HELP ''" "\<not> startswith l ''# TYPE ''" "\<not> is_sample_line l"
    by blast
  then have "current_help s = (if is_help_line l then payload l else current_help s1)
    \<and> current_type s = (if is_type_line l then payload l else current_type s1)
    \<and> metrics s = metrics s1 @
           (case sample_of flt l of
              Some (n, v, lb) \<Rightarrow> [(n, v, lb, current_help s1)] | None \<Rightarrow> [])
    \<and> cache s =
           (case sample_of flt l of
              Some (n, v, lb) \<Rightarrow>
                if map_of (cache s1) n = None
                then cache s1 @ [(n, \<lparr>meta_help = current_help s1, meta_type = current_type s1\<rparr>)]
                else cache s1
            | None \<Rightarrow> cache s1)"
  proof cases
    case h
    then have ns: "\<not> is_sample_line l"
      using startswith_hash [of l] by (simp add: is_sample_line_def)
    from h assms obtain x where i: "item (split_max1 CHR '' '' (drop 7 l)) 1 = Inr x"
      and "s = s1\<lparr>current_help := x\<rparr>"
      by (auto simp: process_line_def split: sum.splits)
    moreover have "x = payload l"
      using item_split_payload [OF i] .
    ultimately have "s = s1\<lparr>current_help := payload l\<rparr>"
      by simp
    with h ns show ?thesis
      by (simp add: is_help_line_def is_type_line_def sample_of_def)
  next
    case t
    then have ns: "\<not> is_sample_line l"
      using startswith_hash [of l] by (simp add: is_sample_line_def)
    from t assms obtain x where i: "item (split_max1 CHR '' '' (drop 7 l)) 1 = Inr x"
      and "s = s1\<lparr>current_type := x\<rparr>"
      by (auto simp: process_line_def split: sum.splits)
    moreover have "x = payload l"
      using item_split_payload [OF i] .
    ultimately have "s = s1\<lparr>current_type := payload l\<rparr>"
      by simp
    with t ns show ?thesis
      by (simp add: is_help_line_def is_type_line_def sample_of_def)
  next
    case s
    with assms show ?thesis
      by (auto simp: process_line_def is_help_line_def is_type_line_def sample_of_def
          record_sample_def split: sum.splits)
  next
    case n
    with assms show ?thesis
      by (auto simp: process_line_def is_help_line_def is_type_line_def sample_of_def)
  qed
  then show "current_help s = (if is_help_line l then payload l else current_help s1)"
    and "current_type s = (if is_type_line l then payload l else current_type s1)"
    and "metrics s = metrics s1 @
           (case sample_of flt l of
              Some (n, v, lb) \<Rightarrow> [(n, v, lb, current_help s1)] | None \<Rightarrow> [])"
    and "cache s =
           (case sample_of flt l of
              Some (n, v, lb) \<Rightarrow>
                if map_of (cache s1) n = None
                then cache s1 @ [(n, \<lparr>meta_help = current_help s1, meta_type = current_type s1\<rparr>)]
                else cache s1
            | None \<Rightarrow> cache s1)"
    by blast+
qed

lemma run_lines_append:
  "run_lines flt s (xs @ ys) =
     (case run_lines flt s xs of
        (Some e, s') \<Rightarrow> (Some e, s')
      | (None, s') \<Rightarrow> run_lines flt s' ys)"
  by (induction xs arbitrary: s) (auto split: sum.splits)

lemma run_lines_snoc_ok:
  assumes "run_lines flt s0 (ls @ [l]) = (None, s)"
  shows "\<exists>s1. run_lines flt s0 ls = (None, s1) \<and> process_line flt s1 l = Inr s"
  using assms
  by (auto simp: run_lines_append split: prod.splits option.splits sum.splits)


lemma samples_of_snoc:
  "samples_of flt h0 (ls @ [l]) =
     samples_of flt h0 ls @
       (case sample_of flt l of Some (n, v, lb) \<Rightarrow> [(n, v, lb, help_at h0 ls)] | None \<Rightarrow> [])"
proof -
  have "map (\<lambda>i. case sample_of flt ((ls @ [l]) ! i) of
                    Some (n, v, lb) \<Rightarrow> [(n, v, lb, help_at h0 (take i (ls @ [l])))]
                  | None \<Rightarrow> []) [0..<length ls]
        = map (\<lambda>i. case sample_of flt (ls ! i) of
                    Some (n, v, lb) \<Rightarrow> [(n, v, lb, help_at h0 (take i ls))]
                  | None \<Rightarrow> []) [0..<length ls]"
    by (rule map_cong) (auto simp: nth_append split: option.splits)
  then have "samples_of flt h0 (ls @ [l]) =
     samples_of flt h0 ls @
       (case sample_of flt l of
          Some (n, v, lb) \<Rightarrow> [(n, v, lb, help_at h0 (take (length ls) (ls @ [l])))]
        | None \<Rightarrow> [])"
    unfolding samples_of_def by (simp del: map_eq_conv take_append)
  then show ?thesis
    by (simp split: option.splits)
qed

lemma run_lines_context:
  "run_lines flt s0 ls = (None, s) \<Longrightarrow>
     current_help s = help_at (current_help s0) ls
     \<and> current_type s = type_at (current_type s0) ls
     \<and> metrics s = metrics s0 @ samples_of flt (current_help s0) ls"
proof (induction ls arbitrary: s rule: rev_induct)
  case Nil
  then show ?case by (simp add: help_at_def type_at_def samples_of_def)
next
  case (snoc l ls)
  then obtain s1 where r: "run_lines flt s0 ls = (None, s1)"
    and p: "process_line flt s1 l = Inr s"
    using run_lines_snoc_ok by blast
  from snoc.IH [OF r] process_line_effect(1-3) [OF p] show ?case
    by (auto simp: help_at_snoc type_at_snoc samples_of_snoc split: option.splits)
qed

lemma process_line_cache_kept:
  assumes "process_line flt s1 l = Inr s" and "map_of (cache s1) n = Some m"
  shows "map_of (cache s) n = Some m"
  using process_line_effect(4) [OF assms(1)] assms(2)
  by (auto simp: map_add_def split: option.splits)

lemma run_lines_cache_kept:
  "run_lines flt s0 ls = (None, s) \<Longrightarrow> map_of (cache s0) n = Some m \<Longrightarrow>
     map_of (cache s) n = Some m"
proof (induction ls arbitrary: s0)
  case Nil
  then show ?case by simp
next
  case (Cons l ls)
  then obtain s1 where p: "process_line flt s0 l = Inr s1"
    and r: "run_lines flt s1 ls = (None, s)"
    by (auto split: sum.splits)
  from Cons.IH [OF r] process_line_cache_kept [OF p Cons.prems(2)] show ?case .
qed

lemma run_lines_cache_absent:
  "run_lines flt s0 ls = (None, s) \<Longrightarrow>
     \<forall>l\<in>set ls. \<forall>v lb. sample_of flt l \<noteq> Some (n, v, lb) \<Longrightarrow>
     map_of (cache s) n = map_of (cache s0) n"
proof (induction ls arbitrary: s0)
  case Nil
  then show ?case by simp
next
  case (Cons l ls)
  then obtain s1 where p: "process_line flt s0 l = Inr s1"
    and r: "run_lines flt s1 ls = (None, s)"
    by (auto split: sum.splits)
  have "map_of (cache s1) n = map_of (cache s0) n"
    using process_line_effect(4) [OF p] Cons.prems(2)
    by (auto simp: map_add_def split: option.splits)
  moreover have "map_of (cache s) n = map_of (cache s1) n"
    using Cons.IH [OF r] Cons.prems(2) by simp
  ultimately show ?case by simp
qed

lemma run_lines_first_sample:
  assumes run: "run_lines flt s0 ls = (None, s)"
    and i: "i < length ls"
    and smp: "sample_of flt (ls ! i) = Some (n, v, lb)"
    and first: "\<forall>j<i. \<forall>v' lb'. sample_of flt (ls ! j) \<noteq> Some (n, v', lb')"
    and fresh: "map_of (cache s0) n = None"
  shows "map_of (cache s) n =
           Some \<lparr>meta_help = help_at (current_help s0) (take i ls),
                 meta_type = type_at (current_type s0) (take i ls)\<rparr>"
proof -
  have ls: "ls = take i ls @ (ls ! i # drop (Suc i) ls)"
    using i by (simp add: id_take_nth_drop [symmetric])
  from run obtain s1 where r1: "run_lines flt s0 (take i ls) = (None, s1)"
    and r2: "run_lines flt s1 (ls ! i # drop (Suc i) ls) = (None, s)"
    using run_lines_append [of flt s0 "take i ls" "ls ! i # drop (Suc i) ls"] ls
    by (auto split: prod.splits option.splits)
  from r2 obtain s2 where p: "process_line flt s1 (ls ! i) = Inr s2"
    and r3: "run_lines flt s2 (drop (Suc i) ls) = (None, s)"
    by (auto split: sum.splits)
  have "\<forall>l\<in>set (take i ls). \<forall>v' lb'. sample_of flt l \<noteq> Some (n, v', lb')"
    using first i by (auto simp: in_set_conv_nth)
  then have "map_of (cache s1) n = None"
    using run_lines_cache_absent [OF r1] fresh by simp
  then have "map_of (cache s2) n =
      Some \<lparr>meta_help = current_help s1, meta_type = current_type s1\<rparr>"
    using process_line_effect(4) [OF p] smp by (simp add: map_add_def)
  then have "map_of (cache s) n =
      Some \<lparr>meta_help = current_help s1, meta_type = current_type s1\<rparr>"
    using run_lines_cache_kept [OF r3] by simp
  then show ?thesis
    using run_lines_context [OF r1] by simp
qed

lemma example_lines:
  "str_split CHR 0x0A example_doc
     = [''# HELP x first'', ''# TYPE x counter'', ''x 1'', ''# HELP x second'', ''x 2'']"
  by (simp add: example_doc_def)

lemma decode_second_sample: "decode digits_float ''x 2'' = Inr (''x'', 2, [])"
  by (simp add: decode_def name_and_labels_def digits_float_def)

lemma second_sample_line: "is_sample_line ''x 2''"
  by (simp add: is_sample_line_def startswith_def strip_def isspace_def)

lemma example_parse:
  "parse_text digits_float [] example_doc
     = (None, \<lparr>metrics = [(''x'', 1, [], ''first''), (''x'', 2, [], ''second'')],
               current_help = ''second'', current_type = ''counter'',
               cache = [(''x'', \<lparr>meta_help = ''first'', meta_type = ''counter''\<rparr>)]\<rparr>)"
proof -
  have h1: "process_line digits_float s ''# HELP x first'' = Inr (s\<lparr>current_help := ''first''\<rparr>)"
    for s :: "nat loop_state"
    by (simp add: process_line_def startswith_def item_def split_max1_def)
  have h2: "process_line digits_float s ''# HELP x second'' = Inr (s\<lparr>current_help := ''second''\<rparr>)"
    for s :: "nat loop_state"
    by (simp add: process_line_def startswith_def item_def split_max1_def)
  have t1: "process_line digits_float s ''# TYPE x counter'' = Inr (s\<lparr>current_type := ''counter''\<rparr>)"
    for s :: "nat loop_state"
    by (simp add: process_line_def startswith_def item_def split_max1_def)
  show ?thesis
    unfolding parse_text_def example_lines
    by (simp add: h1 h2 t1 sample_line_step [OF plain_sample_line] sample_line_step [OF second_sample_line]
        decode_plain_sample decode_second_sample record_sample_def)
qed

lemma example_samples:
  "sample_of digits_float ''# HELP x first'' = None"
  "sample_of digits_float ''# TYPE x counter'' = None"
  "sample_of digits_float ''x 1'' = Some (''x'', 1, [])"
  "sample_of digits_float ''# HELP x second'' = None"
  "sample_of digits_float ''x 2'' = Some (''x'', 2, [])"
  by (simp_all add: sample_of_def plain_sample_line second_sample_line decode_plain_sample decode_second_sample)
     (simp_all add: is_sample_line_def startswith_def)

lemma run_lines_cache_keys:
  "run_lines flt s0 ls = (None, s) \<Longrightarrow>
     fst ` set (cache s) \<subseteq> fst ` set (cache s0) \<union> fst ` set (metrics s)"
proof (induction ls arbitrary: s rule: rev_induct)
  case Nil
  then show ?case by simp
next
  case (snoc l ls)
  from snoc.prems obtain s1 where r: "run_lines flt s0 ls = (None, s1)"
    and p: "process_line flt s1 l = Inr s"
    using run_lines_snoc_ok by blast
  show ?case
  proof (cases "sample_of flt l")
    case None
    with snoc.IH [OF r] process_line_effect(3,4) [OF p] show ?thesis
      by auto
  next
    case (Some d)
    obtain n v lb where d: "d = (n, v, lb)"
      by (cases d) auto
    have m: "metrics s = metrics s1 @ [(n, v, lb, current_help s1)]"
      using process_line_effect(3) [OF p] Some d by simp
    have "fst ` set (cache s) \<subseteq> insert n (fst ` set (cache s1))"
      using process_line_effect(4) [OF p] Some d by (auto split: if_splits)
    moreover have "fst ` set (metrics s) = insert n (fst ` set (metrics s1))"
      using m by simp
    ultimately show ?thesis
      using snoc.IH [OF r] by (simp add: subset_iff) blast
  qed
qed

section \<open>Facts about the loops of the index queries\<close>

lemma first_seen_snoc:
  "first_seen (xs @ [x]) = (if x \<in> set xs then first_seen xs else first_seen xs @ [x])"
  by (simp add: first_seen_def)

lemma set_first_seen: "set (first_seen xs) = set xs"
  by (simp add: first_seen_def)

lemma distinct_first_seen: "distinct (first_seen xs)"
  by (simp add: first_seen_def)

lemma first_token_takeWhile: "first_token n = takeWhile (\<lambda>c. c \<noteq> CHR ''_'') n"
proof (cases "str_split CHR ''_'' n")
  case Nil
  then show ?thesis using str_split_not_Nil by blast
next
  case (Cons t ts)
  then show ?thesis
    using str_split_head [OF Cons] by (simp add: first_token_def)
qed

lemma group_inv_step:
  assumes "group_inv groups names"
  shows "group_inv (add_to_group n groups) (names @ [n])"
proof -
  let ?g = "first_token n"
  have d: "distinct (map fst groups)"
    and m: "\<And>p. map_of groups p =
             (if filter (\<lambda>n. first_token n = p) names = [] then None
              else Some (first_seen (filter (\<lambda>n. first_token n = p) names)))"
    using assms by (auto simp: group_inv_def)
  show ?thesis
  proof (cases "map_of groups ?g")
    case None
    then have e: "filter (\<lambda>n. first_token n = ?g) names = []"
      using m [of ?g] by (auto split: if_splits)
    have notin: "?g \<notin> fst ` set groups"
      using None by (simp add: map_of_eq_None_iff)
    have a: "add_to_group n groups = groups @ [(?g, [n])]"
      using None by (simp add: add_to_group_def)
    show ?thesis
      unfolding a group_inv_def
      using d notin m e None
      by (auto simp: map_add_def first_seen_snoc first_seen_def split: option.splits)
  next
    case (Some ns)
    then have ns: "ns = first_seen (filter (\<lambda>n. first_token n = ?g) names)"
      using m [of ?g] by (auto split: if_splits)
    show ?thesis
    proof (cases "n \<in> set ns")
      case True
      then have a: "add_to_group n groups = groups"
        using Some by (simp add: add_to_group_def)
      from True ns have "n \<in> set (filter (\<lambda>x. first_token x = ?g) names)"
        by (simp only: set_first_seen)
      then show ?thesis
        unfolding a group_inv_def using d m
        by (auto simp: first_seen_snoc set_first_seen filter_empty_conv)
    next
      case False
      then have a: "add_to_group n groups = AList.update ?g (ns @ [n]) groups"
        using Some by (simp add: add_to_group_def)
      from False ns have "n \<notin> set (filter (\<lambda>n. first_token n = ?g) names)"
        by (simp add: set_first_seen)
      with ns show ?thesis
        unfolding a group_inv_def using d m
        by (auto simp: update_conv' distinct_update first_seen_snoc)
    qed
  qed
qed

lemma group_loop_inv:
  "group_inv groups names \<Longrightarrow> group_inv (group_loop ms groups) (names @ map fst ms)"
proof (induction ms arbitrary: groups names)
  case Nil
  then show ?case by simp
next
  case (Cons m ms)
  from Cons.IH [OF group_inv_step [OF Cons.prems, of "fst m"]] show ?case by simp
qed


lemma populated_cache:
  "metrics_cache st = Some ms \<Longrightarrow> ms \<noteq> [] \<Longrightarrow> ensure_cache flt srv st = (Inr ms, st)"
  by (cases ms) (simp_all add: ensure_cache_def)

lemma str_in_iff: "str_in sub s = (\<exists>a b. s = a @ sub @ b)"
proof (induction s)
  case Nil
  then show ?case by auto
next
  case (Cons x xs)
  have "startswith (x # xs) sub = (\<exists>b. x # xs = sub @ b)"
    unfolding startswith_def
    by (metis append_eq_conv_conj append_take_drop_id)
  moreover have "(\<exists>a b. x # xs = a @ sub @ b)
      = ((\<exists>b. x # xs = sub @ b) \<or> (\<exists>a b. xs = a @ sub @ b))"
  proof
    assume "\<exists>a b. x # xs = a @ sub @ b"
    then obtain a b where ab: "x # xs = a @ sub @ b" by blast
    show "(\<exists>b. x # xs = sub @ b) \<or> (\<exists>a b. xs = a @ sub @ b)"
    proof (cases a)
      case Nil
      with ab show ?thesis by auto
    next
      case (Cons y ys)
      with ab have "xs = ys @ sub @ b" by simp
      then show ?thesis by blast
    qed
  next
    assume "(\<exists>b. x # xs = sub @ b) \<or> (\<exists>a b. xs = a @ sub @ b)"
    then show "\<exists>a b. x # xs = a @ sub @ b"
    proof
      assume "\<exists>b. x # xs = sub @ b"
      then obtain b where "x # xs = [] @ sub @ b" by auto
      then show ?thesis by blast
    next
      assume "\<exists>a b. xs = a @ sub @ b"
      then obtain a b where "x # xs = (x # a) @ sub @ b" by auto
      then show ?thesis by blast
    qed
  qed
  ultimately show ?case
    using Cons.IH by simp
qed

lemma find_append_first:
  "find P (xs @ ys) = (case find P xs of Some x \<Rightarrow> Some x | None \<Rightarrow> find P ys)"
  by (induction xs) auto


lemma search_inv_names:
  assumes "search_inv t ds results seen"
  shows "seen = fst ` set (filter (matches t) ds)"
proof -
  have a: "seen = fst ` set results"
    and b: "map fst results = first_seen (map fst (filter (matches t) ds))"
    using assms by (simp_all add: search_inv_def)
  have "fst ` set results = set (map fst results)"
    by simp
  also have "\<dots> = set (first_seen (map fst (filter (matches t) ds)))"
    by (simp only: b)
  also have "\<dots> = fst ` set (filter (matches t) ds)"
    by (simp only: set_first_seen set_map)
  finally show ?thesis
    using a by simp
qed

lemma search_inv_step_new:
  assumes inv: "search_inv t ds results seen"
    and m: "matches t (n, v, l, h)" and new: "n \<notin> seen"
  shows "search_inv t (ds @ [(n, v, l, h)]) (results @ [(n, h, v)]) (insert n seen)"
proof -
  have names: "seen = fst ` set (filter (matches t) ds)"
    using search_inv_names [OF inv] .
  have none: "find (\<lambda>s. fst s = n \<and> matches t s) ds = None"
    using new names by (force simp: find_None_iff)
  have a: "insert n seen = fst ` set (results @ [(n, h, v)])"
    using inv by (auto simp: search_inv_def)
  have b: "map fst (results @ [(n, h, v)])
      = first_seen (map fst (filter (matches t) (ds @ [(n, v, l, h)])))"
    using inv m new names by (simp add: search_inv_def first_seen_snoc image_iff)
  have c: "\<exists>l'. find (\<lambda>s. fst s = fst r \<and> matches t s) (ds @ [(n, v, l, h)])
              = Some (fst r, snd (snd r), l', fst (snd r))"
    if "r \<in> set (results @ [(n, h, v)])" for r
  proof (cases "r \<in> set results")
    case True
    then obtain l' where "find (\<lambda>s. fst s = fst r \<and> matches t s) ds
        = Some (fst r, snd (snd r), l', fst (snd r))"
      using inv by (auto simp: search_inv_def)
    then show ?thesis by (simp add: find_append_first)
  next
    case False
    with that have "r = (n, h, v)" by simp
    with none m show ?thesis by (simp add: find_append_first)
  qed
  show ?thesis
    unfolding search_inv_def using a b c by blast
qed

lemma search_inv_step_seen:
  assumes inv: "search_inv t ds results seen"
    and m: "matches t (n, v, l, h)" and old: "n \<in> seen"
  shows "search_inv t (ds @ [(n, v, l, h)]) results seen"
proof -
  have names: "seen = fst ` set (filter (matches t) ds)"
    using search_inv_names [OF inv] .
  then have "n \<in> set (map fst (filter (matches t) ds))"
    using old by simp
  then have b: "map fst results = first_seen (map fst (filter (matches t) (ds @ [(n, v, l, h)])))"
    using inv m by (simp add: search_inv_def first_seen_snoc)
  have c: "\<exists>l'. find (\<lambda>s. fst s = fst r \<and> matches t s) (ds @ [(n, v, l, h)])
              = Some (fst r, snd (snd r), l', fst (snd r))"
    if "r \<in> set results" for r
  proof -
    from that obtain l' where "find (\<lambda>s. fst s = fst r \<and> matches t s) ds
        = Some (fst r, snd (snd r), l', fst (snd r))"
      using inv by (auto simp: search_inv_def)
    then show ?thesis by (simp add: find_append_first)
  qed
  show ?thesis
    unfolding search_inv_def using inv b c by (auto simp: search_inv_def)
qed

lemma search_inv_step_no_match:
  assumes inv: "search_inv t ds results seen"
    and m: "\<not> matches t (n, v, l, h)"
  shows "search_inv t (ds @ [(n, v, l, h)]) results seen"
proof -
  have c: "\<exists>l'. find (\<lambda>s. fst s = fst r \<and> matches t s) (ds @ [(n, v, l, h)])
              = Some (fst r, snd (snd r), l', fst (snd r))"
    if "r \<in> set results" for r
  proof -
    from that obtain l' where "find (\<lambda>s. fst s = fst r \<and> matches t s) ds
        = Some (fst r, snd (snd r), l', fst (snd r))"
      using inv by (auto simp: search_inv_def)
    then show ?thesis by (simp add: find_append_first)
  qed
  show ?thesis
    unfolding search_inv_def using inv m c by (auto simp: search_inv_def)
qed

lemma search_loop_inv:
  "search_inv t ds results seen \<Longrightarrow>
     \<exists>seen'. search_inv t (ds @ ms) (search_loop t ms results seen) seen'"
proof (induction ms arbitrary: ds results seen)
  case Nil
  then show ?case by auto
next
  case (Cons m ms)
  obtain n v l h where m: "m = (n, v, l, h)"
    by (cases m) auto
  consider (new) "matches t (n, v, l, h)" "n \<notin> seen"
    | (old) "matches t (n, v, l, h)" "n \<in> seen"
    | (no) "\<not> matches t (n, v, l, h)"
    by blast
  then show ?case
  proof cases
    case new
    from Cons.IH [OF search_inv_step_new [OF Cons.prems new]] new m show ?thesis
      by simp
  next
    case old
    from Cons.IH [OF search_inv_step_seen [OF Cons.prems old]] old m show ?thesis
      by simp
  next
    case no
    from Cons.IH [OF search_inv_step_no_match [OF Cons.prems no]] no m show ?thesis
      by simp
  qed
qed

lemma search_loop_spec:
  "map fst (search_loop t ms [] {}) = first_seen (map fst (filter (matches t) ms))
   \<and> (\<forall>r\<in>set (search_loop t ms [] {}). \<exists>l.
         find (\<lambda>s. fst s = fst r \<and> matches t s) ms = Some (fst r, snd (snd r), l, fst (snd r)))"
proof -
  have "search_inv t [] [] {}"
    by (simp add: search_inv_def first_seen_def)
  from search_loop_inv [OF this, of ms] show ?thesis
    by (auto simp: search_inv_def)
qed

lemma matches_iff:
  "matches t (n, v, l, h) =
     ((\<exists>a b. lower n = a @ lower t @ b) \<or> (\<exists>a b. lower h = a @ lower t @ b))"
  by (simp add: matches_def str_in_iff)

lemma matches_empty: "matches [] m"
  by (cases m) (auto simp: matches_def lower_def str_in_iff)


lemma ex_index_populated: "metrics_cache ex_index = Some ex_samples \<and> ex_samples \<noteq> []"
  by (simp add: ex_index_def ex_samples_def)

lemma fresh_fetch_keys:
  assumes "ensure_cache flt srv st = (Inr ms, st')"
    and "metrics_cache st = None" and "help_cache st = []"
  shows "fst ` set (help_cache st') \<subseteq> fst ` set ms"
proof -
  from assms(1,2) have pop: "populate flt srv st = (Inr ms, st')"
    by (simp add: ensure_cache_def)
  obtain r st1 where f: "fetch_metrics flt srv st = (r, st1)"
    by (cases "fetch_metrics flt srv st") auto
  with pop have "r = Inr ms \<and> st' = st1\<lparr>metrics_cache := Some ms\<rparr>"
    by (cases r) (auto simp: populate_def)
  then have r: "r = Inr ms" and st': "st' = st1\<lparr>metrics_cache := Some ms\<rparr>"
    by simp_all
  show ?thesis
  proof (cases "srv (requests st)")
    case (Inl e)
    with f r show ?thesis by (simp add: fetch_metrics_def)
  next
    case (Inr body)
    obtain eo s where pt: "parse_text flt (help_cache st) body = (eo, s)"
      by (cases "parse_text flt (help_cache st) body") auto
    show ?thesis
    proof (cases eo)
      case (Some e)
      with f r Inr pt show ?thesis by (simp add: fetch_metrics_def)
    next
      case None
      with f r Inr pt have ms: "ms = metrics s" and hc: "help_cache st1 = cache s"
        by (auto simp: fetch_metrics_def)
      have "run_lines flt \<lparr>metrics = [], current_help = [], current_type = [], cache = []\<rparr>
          (str_split CHR 0x0A body) = (None, s)"
        using pt None assms(3) by (simp add: parse_text_def)
      from run_lines_cache_keys [OF this] show ?thesis
        by (simp add: ms hc st')
    qed
  qed
qed

lemma values_of_absent: "name \<notin> fst ` set ms \<Longrightarrow> values_of ms name = []"
  by (auto simp: values_of_def filter_empty_conv image_iff)

lemma ensure_example:
  "ensure_cache digits_float serve_example init
     = (Inr [(''x'', 1, [], ''first''), (''x'', 2, [], ''second'')], example_index)"
  by code_simp

lemma run_query_populated:
  assumes "metrics_cache st = Some ms" and "ms \<noteq> []"
  shows "run_query flt srv st q = (Inr (answer_from ms (help_cache st) q), st)"
  using populated_cache [OF assms, of flt srv]
  by (cases q)
     (simp_all add: run_query_def answer_from_def group_metrics_def search_metrics_def
        show_metric_details_def)

lemma fetch_counts: "requests (snd (fetch_metrics flt srv st)) = Suc (requests st)"
  by (simp add: fetch_metrics_def split: sum.splits prod.splits option.splits)

lemma populate_counts: "requests (snd (populate flt srv st)) = Suc (requests st)"
proof -
  obtain r st1 where f: "fetch_metrics flt srv st = (r, st1)"
    by (cases "fetch_metrics flt srv st") auto
  then have "requests st1 = Suc (requests st)"
    using fetch_counts [of flt srv st] by simp
  with f show ?thesis
    by (cases r) (simp_all add: populate_def)
qed

lemma ensure_cache_refetch:
  assumes "metrics_cache st = None \<or> metrics_cache st = Some []"
  shows "ensure_cache flt srv st = populate flt srv st"
  using assms by (auto simp: ensure_cache_def)

lemma run_query_state:
  "snd (run_query flt srv st q) = snd (ensure_cache flt srv st)"
proof -
  obtain r st1 where e: "ensure_cache flt srv st = (r, st1)"
    by (cases "ensure_cache flt srv st") auto
  then show ?thesis
    by (cases q; cases r)
       (simp_all add: run_query_def group_metrics_def search_metrics_def
          show_metric_details_def)
qed

lemma details_from_guard:
  assumes "ensure_cache flt srv st = (Inr ms, st')"
  shows "\<exists>out. show_metric_details flt srv st name = (Inr out, st')
     \<and> (map_of (help_cache st') name = None \<longrightarrow>
           (\<forall>x. TypeLine x \<notin> set out \<and> HelpLine x \<notin> set out))
     \<and> (name \<notin> fst ` set ms \<longrightarrow>
           values_of ms name = [] \<and> NoValues \<in> set out
           \<and> (\<forall>v l. ValueWithLabels v l \<notin> set out \<and> ValueOnly v \<notin> set out))
     \<and> (map_of (help_cache st') name = None \<and> name \<notin> fst ` set ms \<longrightarrow>
           out = [Title name, Rule, CurrentValues, NoValues])
     \<and> (metrics_cache st = None \<and> help_cache st = [] \<and> name \<notin> fst ` set ms \<longrightarrow>
           out = [Title name, Rule, CurrentValues, NoValues])"
proof -
  let ?out = "details_lines ms (help_cache st') name"
  have r: "show_metric_details flt srv st name = (Inr ?out, st')"
    using assms by (simp add: show_metric_details_def)
  have vals: "(\<exists>v l. x = ValueWithLabels v l) \<or> (\<exists>v. x = ValueOnly v)"
    if "x \<in> set (map (\<lambda>(n, value, labels).
                 if labels \<noteq> [] then ValueWithLabels value labels else ValueOnly value) vs)"
    for x :: "'a printed" and vs :: "(string \<times> 'a \<times> labels) list"
    using that by (induction vs) (auto split: prod.splits if_splits)
  have a: "\<forall>x. TypeLine x \<notin> set ?out \<and> HelpLine x \<notin> set ?out"
    if "map_of (help_cache st') name = None"
  proof (intro allI conjI notI)
    fix x
    assume "TypeLine x \<in> set ?out"
    then show False
      using that vals [of "TypeLine x" "values_of ms name"]
      by (simp add: details_lines_def split: if_splits)
  next
    fix x
    assume "HelpLine x \<in> set ?out"
    then show False
      using that vals [of "HelpLine x" "values_of ms name"]
      by (simp add: details_lines_def split: if_splits)
  qed
  have b: "values_of ms name = [] \<and> NoValues \<in> set ?out
           \<and> (\<forall>v l. ValueWithLabels v l \<notin> set ?out \<and> ValueOnly v \<notin> set ?out)"
    if "name \<notin> fst ` set ms"
    using values_of_absent [OF that]
    by (cases "map_of (help_cache st') name") (simp_all add: details_lines_def)
  have c: "?out = [Title name, Rule, CurrentValues, NoValues]"
    if "map_of (help_cache st') name = None" "name \<notin> fst ` set ms"
    using values_of_absent [OF that(2)] that(1) by (simp add: details_lines_def)
  have d: "?out = [Title name, Rule, CurrentValues, NoValues]"
    if "metrics_cache st = None" "help_cache st = []" "name \<notin> fst ` set ms"
  proof -
    have "name \<notin> fst ` set (help_cache st')"
      using fresh_fetch_keys [OF assms that(1,2)] that(3) by blast
    then have "map_of (help_cache st') name = None"
      by (simp add: map_of_eq_None_iff)
    then show ?thesis
      using c that(3) by blast
  qed
  show ?thesis
  proof (intro exI [of _ ?out] conjI impI)
    show "show_metric_details flt srv st name = (Inr ?out, st')"
      by (rule r)
  next
    assume "map_of (help_cache st') name = None"
    then show "\<forall>x. TypeLine x \<notin> set ?out \<and> HelpLine x \<notin> set ?out"
      by (rule a)
  next
    assume h: "name \<notin> fst ` set ms"
    from b [OF h] show "values_of ms name = []" "NoValues \<in> set ?out"
      "\<forall>v l. ValueWithLabels v l \<notin> set ?out \<and> ValueOnly v \<notin> set ?out"
      by simp_all
  next
    assume "map_of (help_cache st') name = None \<and> name \<notin> fst ` set ms"
    then show "?out = [Title name, Rule, CurrentValues, NoValues]"
      using c by simp
  next
    assume "metrics_cache st = None \<and> help_cache st = [] \<and> name \<notin> fst ` set ms"
    then show "?out = [Title name, Rule, CurrentValues, NoValues]"
      using d by simp
  qed
qed

lemma details_raise_only_from_fetch:
  assumes "show_metric_details flt srv st name = (Inl e, st')"
  shows "(metrics_cache st = None \<or> metrics_cache st = Some [])
         \<and> fetch_metrics flt srv st = (Inl e, st')"
proof -
  obtain r st1 where g: "ensure_cache flt srv st = (r, st1)"
    by (cases "ensure_cache flt srv st") auto
  with assms have "r = Inl e \<and> st1 = st'"
    by (cases r) (auto simp: show_metric_details_def)
  then have r: "r = Inl e" and st1: "st1 = st'"
    by simp_all
  have falsy: "metrics_cache st = None \<or> metrics_cache st = Some []"
  proof (cases "metrics_cache st")
    case None
    then show ?thesis by simp
  next
    case (Some ms)
    show ?thesis
    proof (cases ms)
      case Nil
      with Some show ?thesis by simp
    next
      case (Cons m ms')
      with Some g r show ?thesis by (simp add: ensure_cache_def)
    qed
  qed
  then have p: "populate flt srv st = (Inl e, st')"
    using g r st1 by (simp add: ensure_cache_refetch)
  obtain r2 st2 where f: "fetch_metrics flt srv st = (r2, st2)"
    by (cases "fetch_metrics flt srv st") auto
  with p have "r2 = Inl e \<and> st2 = st'"
    by (cases r2) (auto simp: populate_def)
  with f falsy show ?thesis
    by simp
qed

section \<open>A HELP or TYPE line without a space after the name\<close>

text \<open>
  C1. The claim is that a HELP or TYPE line with nothing after the metric name does not
  abort the parse. In the source the two metadata branches (lines 26-29) are outside the
  \<^verbatim>\<open>try\<close> of the sample branch. On the two-line text \<^verbatim>\<open># HELP x\<close>, \<^verbatim>\<open>x 1\<close> the index
  \<^verbatim>\<open>[1]\<close> raises IndexError, \<^verbatim>\<open>fetch_metrics\<close> raises it to its caller and no sample is
  returned; the same happens with \<^verbatim>\<open># TYPE x\<close>.
\<close>

theorem help_without_text_aborts:
  "fetch_metrics digits_float (\<lambda>n. Inr (''# HELP x'' @ [CHR 0x0A] @ ''x 1'')) init
     = (Inl IndexError, \<lparr>metrics_cache = None, help_cache = [], requests = 1\<rparr>)
   \<and> fetch_metrics digits_float (\<lambda>n. Inr (''# TYPE x'' @ [CHR 0x0A] @ ''x 1'')) init
     = (Inl IndexError, \<lparr>metrics_cache = None, help_cache = [], requests = 1\<rparr>)"
  by (simp add: fetch_metrics_def parse_text_def init_def process_line_def startswith_def
      split_max1_def item_def)

section \<open>Reuse of the cache\<close>

text \<open>
  C2, as the source has it. The guard of the three queries is \<^verbatim>\<open>not self.metrics_cache\<close>.
  While the cache holds a non-empty sample list, any sequence of grouping, search and
  detail queries leaves the explorer as it is: no request is sent, nothing is parsed
  again, and every answer is computed from that list. While the cache is \<^verbatim>\<open>None\<close> or
  the empty list, a query sends a request: a first parse that produced no sample does
  not stop the next query from fetching again.
\<close>

theorem nonempty_cache_is_reused:
  "(metrics_cache st = Some ms \<and> ms \<noteq> [] \<longrightarrow>
      run_queries flt srv st qs = (map (\<lambda>q. Inr (answer_from ms (help_cache st) q)) qs, st))
   \<and> (metrics_cache st = None \<or> metrics_cache st = Some [] \<longrightarrow>
        requests (snd (run_query flt srv st q)) = Suc (requests st))"
proof (intro conjI impI)
  assume "metrics_cache st = Some ms \<and> ms \<noteq> []"
  then have a: "metrics_cache st = Some ms" and b: "ms \<noteq> []"
    by simp_all
  show "run_queries flt srv st qs = (map (\<lambda>q. Inr (answer_from ms (help_cache st) q)) qs, st)"
    by (induction qs) (simp_all add: run_query_populated [OF a b])
next
  assume "metrics_cache st = None \<or> metrics_cache st = Some []"
  then show "requests (snd (run_query flt srv st q)) = Suc (requests st)"
    by (simp only: run_query_state ensure_cache_refetch populate_counts)
qed

theorem nonempty_cache_is_reused_witness:
  "metrics_cache ex_index = Some ex_samples \<and> ex_samples \<noteq> []
   \<and> run_queries digits_float no_server ex_index
         [GroupQuery, SearchQuery ''CPU'', DetailsQuery ''go_gc_duration'']
       = ([Inr (Groups [(''node'', [''node_cpu_seconds_total'', ''node_memory_bytes'']),
                        (''go'', [''go_gc_duration''])]),
           Inr (Hits [(''node_cpu_seconds_total'', ''CPU time'', 1)]),
           Inr (Printed [Title ''go_gc_duration'', Rule, CurrentValues, ValueOnly 4])],
          ex_index)
   \<and> metrics_cache (init :: nat explorer) = None
   \<and> requests (snd (run_query digits_float empty_then_x init GroupQuery)) = 1"
proof -
  let ?qs = "[GroupQuery, SearchQuery ''CPU'', DetailsQuery ''go_gc_duration'']"
  have p: "metrics_cache ex_index = Some ex_samples \<and> ex_samples \<noteq> []"
    by (rule ex_index_populated)
  have i: "metrics_cache (init :: nat explorer) = None"
    by (simp add: init_def)
  have "run_queries digits_float no_server ex_index ?qs
      = (map (\<lambda>q. Inr (answer_from ex_samples (help_cache ex_index) q)) ?qs, ex_index)"
    by (rule nonempty_cache_is_reused [THEN conjunct1, THEN mp, OF p])
  moreover have "map (\<lambda>q. Inr (answer_from ex_samples (help_cache ex_index) q)) ?qs
      = [Inr (Groups [(''node'', [''node_cpu_seconds_total'', ''node_memory_bytes'']),
                        (''go'', [''go_gc_duration''])]),
           Inr (Hits [(''node_cpu_seconds_total'', ''CPU time'', 1)]),
           (Inr (Printed [Title ''go_gc_duration'', Rule, CurrentValues, ValueOnly 4])
              :: error + nat answer)]"
    by code_simp
  moreover have "requests (snd (run_query digits_float empty_then_x init GroupQuery))
      = Suc (requests (init :: nat explorer))"
    by (rule nonempty_cache_is_reused [THEN conjunct2, THEN mp, OF disjI1, OF i])
  ultimately show ?thesis
    using p i by (simp add: init_def)
qed

text \<open>
  C2, as stated, has the first parse reused also when it produced no sample. Against an
  endpoint that first answers the empty text and then \<^verbatim>\<open>x 1\<close>, the first query leaves the
  empty list in the cache after one request; the second query sends a second request
  and answers from the new text.
\<close>

theorem empty_cache_is_fetched_again:
  "run_query digits_float empty_then_x init GroupQuery
     = (Inr (Groups []), \<lparr>metrics_cache = Some [], help_cache = [], requests = 1\<rparr>)
   \<and> run_query digits_float empty_then_x
         \<lparr>metrics_cache = Some [], help_cache = [], requests = 1\<rparr> (SearchQuery [])
       = (Inr (Hits [(''x'', [], 1)]),
          \<lparr>metrics_cache = Some [(''x'', 1, [], [])],
            help_cache = [(''x'', \<lparr>meta_help = [], meta_type = []\<rparr>)], requests = 2\<rparr>)
   \<and> run_queries digits_float empty_then_x init [GroupQuery, SearchQuery []]
       = ([Inr (Groups []), Inr (Hits [(''x'', [], 1)])],
          \<lparr>metrics_cache = Some [(''x'', 1, [], [])],
            help_cache = [(''x'', \<lparr>meta_help = [], meta_type = []\<rparr>)], requests = 2\<rparr>)"
  by code_simp

section \<open>The running HELP/TYPE context and first-seen metadata\<close>

text \<open>
  C3. When the parse of a document completes, the samples returned are the decoded sample
  lines in document order, and the help field of each is the text of the most recent
  HELP line before it, whatever metric that HELP line names (\<open>samples_of\<close>, \<open>help_at\<close>).
  An entry already in the metadata table is never replaced; for a name not yet in the
  table, the entry after the parse holds the help and type texts in effect at the first
  sample of that name, whatever HELP or TYPE lines follow. On the five-line example the
  table is \<^verbatim>\<open>{x: {help: first, type: counter}}\<close> and the two samples of \<^verbatim>\<open>x\<close> carry the
  help texts \<^verbatim>\<open>first\<close> and \<^verbatim>\<open>second\<close>.
\<close>

theorem help_context_and_first_seen_metadata:
  assumes "parse_text flt hc text = (None, s)" and "ls = str_split CHR 0x0A text"
  shows "metrics s = samples_of flt [] ls
         \<and> (\<forall>n m. map_of hc n = Some m \<longrightarrow> map_of (cache s) n = Some m)
         \<and> (\<forall>i n v lb.
               i < length ls \<and> sample_of flt (ls ! i) = Some (n, v, lb)
               \<and> (\<forall>j<i. \<forall>v' lb'. sample_of flt (ls ! j) \<noteq> Some (n, v', lb'))
               \<and> map_of hc n = None \<longrightarrow>
               map_of (cache s) n =
                 Some \<lparr>meta_help = help_at [] (take i ls), meta_type = type_at [] (take i ls)\<rparr>)"
proof -
  let ?s0 = "\<lparr>metrics = [], current_help = [], current_type = [], cache = hc\<rparr> :: 'a loop_state"
  have run: "run_lines flt ?s0 ls = (None, s)"
    using assms by (simp add: parse_text_def)
  have "metrics s = samples_of flt [] ls"
    using run_lines_context [OF run] by simp
  moreover have "\<forall>n m. map_of hc n = Some m \<longrightarrow> map_of (cache s) n = Some m"
    using run_lines_cache_kept [OF run] by simp
  moreover have "map_of (cache s) n =
        Some \<lparr>meta_help = help_at [] (take i ls), meta_type = type_at [] (take i ls)\<rparr>"
    if "i < length ls" "sample_of flt (ls ! i) = Some (n, v, lb)"
      "\<forall>j<i. \<forall>v' lb'. sample_of flt (ls ! j) \<noteq> Some (n, v', lb')" "map_of hc n = None"
    for i n v lb
    using run_lines_first_sample [OF run that(1) that(2) that(3)] that(4) by simp
  ultimately show ?thesis by blast
qed


theorem help_context_and_first_seen_metadata_witness:
  "parse_text digits_float [] example_doc
     = (None, \<lparr>metrics = [(''x'', 1, [], ''first''), (''x'', 2, [], ''second'')],
               current_help = ''second'', current_type = ''counter'',
               cache = [(''x'', \<lparr>meta_help = ''first'', meta_type = ''counter''\<rparr>)]\<rparr>)
   \<and> samples_of digits_float [] (str_split CHR 0x0A example_doc)
       = [(''x'', 1, [], ''first''), (''x'', 2, [], ''second'')]
   \<and> help_at [] (take 2 (str_split CHR 0x0A example_doc)) = ''first''
   \<and> type_at [] (take 2 (str_split CHR 0x0A example_doc)) = ''counter''
   \<and> help_at [] (take 4 (str_split CHR 0x0A example_doc)) = ''second''"
proof -
  note t = help_context_and_first_seen_metadata [OF example_parse refl]
  have a: "samples_of digits_float [] (str_split CHR 0x0A example_doc)
       = [(''x'', 1, [], ''first''), (''x'', 2, [], ''second'')]"
    using t by simp
  have p: "(2::nat) < length (str_split CHR 0x0A example_doc)
     \<and> sample_of digits_float (str_split CHR 0x0A example_doc ! 2) = Some (''x'', 1, [])
     \<and> (\<forall>j<2. \<forall>v' lb'. sample_of digits_float (str_split CHR 0x0A example_doc ! j) \<noteq> Some (''x'', v', lb'))
     \<and> map_of ([] :: (string \<times> meta) list) ''x'' = None"
    by (auto simp: example_lines example_samples less_Suc_eq numeral_2_eq_2)
  have "help_at [] (take 2 (str_split CHR 0x0A example_doc)) = ''first''
     \<and> type_at [] (take 2 (str_split CHR 0x0A example_doc)) = ''counter''"
    using t [THEN conjunct2, THEN conjunct2, rule_format, OF p] by simp
  moreover have "help_at [] (take 4 (str_split CHR 0x0A example_doc)) = ''second''"
    by (simp add: example_lines help_at_def is_help_line_def startswith_def payload_def)
  ultimately show ?thesis
    using example_parse a by simp
qed

section \<open>Search\<close>

text \<open>
  C4. Whenever the cache guard of \<^verbatim>\<open>search_metrics\<close> yields a sample list (a non-empty
  cache as it is, by \<open>populated_cache\<close>), the method returns triples (name, help, value)
  with pairwise distinct names. A name is in the result exactly when
  some sample of that name in the list has the lower-cased term as a substring of its
  lower-cased name or of its lower-cased help text. The names come in the order of their
  first matching samples, and the help and value of each triple are those of the first
  matching sample of its name: nothing is aggregated over the other samples.
\<close>

theorem search_first_match_per_name:
  assumes "ensure_cache flt srv st = (Inr ms, st')"
  shows "\<exists>results. search_metrics flt srv st t = (Inr results, st')
     \<and> distinct (map fst results)
     \<and> map fst results = rev (remdups (rev (map fst (filter (matches t) ms))))
     \<and> (\<forall>n. (n \<in> fst ` set results) =
            (\<exists>v l h. (n, v, l, h) \<in> set ms
               \<and> ((\<exists>a b. lower n = a @ lower t @ b) \<or> (\<exists>a b. lower h = a @ lower t @ b))))
     \<and> (\<forall>(n, h, v)\<in>set results. \<exists>l.
            find (\<lambda>s. fst s = n \<and> matches t s) ms = Some (n, v, l, h))"
proof -
  let ?r = "search_loop t ms [] {}"
  have names: "map fst ?r = first_seen (map fst (filter (matches t) ms))"
    and firsts: "\<forall>r\<in>set ?r. \<exists>l.
         find (\<lambda>s. fst s = fst r \<and> matches t s) ms = Some (fst r, snd (snd r), l, fst (snd r))"
    using search_loop_spec [of t ms] by blast+
  have "fst ` set ?r = set (map fst ?r)"
    by simp
  also have "\<dots> = fst ` set (filter (matches t) ms)"
    by (simp only: names set_first_seen set_map)
  finally have dom: "fst ` set ?r = fst ` set (filter (matches t) ms)" .
  have incl: "(n \<in> fst ` set ?r) =
            (\<exists>v l h. (n, v, l, h) \<in> set ms
               \<and> ((\<exists>a b. lower n = a @ lower t @ b) \<or> (\<exists>a b. lower h = a @ lower t @ b)))" for n
  proof -
    have "(n \<in> fst ` set (filter (matches t) ms))
        = (\<exists>v l h. (n, v, l, h) \<in> set ms \<and> matches t (n, v, l, h))"
      by (auto simp: image_iff)
    then show ?thesis
      by (simp only: dom matches_iff)
  qed
  have "search_metrics flt srv st t = (Inr ?r, st')"
    using assms by (simp add: search_metrics_def)
  moreover have "distinct (map fst ?r)"
    by (simp only: names distinct_first_seen)
  moreover have "map fst ?r = rev (remdups (rev (map fst (filter (matches t) ms))))"
    using names by (simp add: first_seen_def)
  moreover have "\<forall>(n, h, v)\<in>set ?r. \<exists>l.
            find (\<lambda>s. fst s = n \<and> matches t s) ms = Some (n, v, l, h)"
  proof clarify
    fix n h v
    assume "(n, h, v) \<in> set ?r"
    from firsts [rule_format, OF this]
    show "\<exists>l. find (\<lambda>s. fst s = n \<and> matches t s) ms = Some (n, v, l, h)"
      by simp
  qed
  ultimately show ?thesis
    using incl by (intro exI [of _ ?r] conjI allI) assumption+
qed

theorem search_first_match_per_name_witness:
  "ensure_cache digits_float no_server ex_index = (Inr ex_samples, ex_index)
   \<and> search_metrics digits_float no_server ex_index ''CPU''
       = (Inr [(''node_cpu_seconds_total'', ''CPU time'', 1)], ex_index)
   \<and> rev (remdups (rev (map fst (filter (matches ''CPU'') ex_samples))))
       = [''node_cpu_seconds_total'']"
proof -
  have p: "metrics_cache ex_index = Some ex_samples" and q: "ex_samples \<noteq> []"
    using ex_index_populated by simp_all
  have c: "ensure_cache digits_float no_server ex_index = (Inr ex_samples, ex_index)"
    using p q by (rule populated_cache)
  have e: "search_metrics digits_float no_server ex_index ''CPU''
       = (Inr [(''node_cpu_seconds_total'', ''CPU time'', 1)], ex_index)"
    by code_simp
  from search_first_match_per_name [OF c, of "''CPU''"]
  obtain results where r: "search_metrics digits_float no_server ex_index ''CPU''
        = (Inr results, ex_index)"
    and n: "map fst results = rev (remdups (rev (map fst (filter (matches ''CPU'') ex_samples))))"
    by (elim exE conjE) (rule that, assumption+)
  from r e have "results = [(''node_cpu_seconds_total'', ''CPU time'', 1)]"
    by simp
  then have m: "map fst results = [''node_cpu_seconds_total'']"
    by simp
  from n [symmetric] m
  have "rev (remdups (rev (map fst (filter (matches ''CPU'') ex_samples))))
       = [''node_cpu_seconds_total'']"
    by (rule trans)
  with c e show ?thesis
    by (intro conjI)
qed

section \<open>Sample lines that fail to decode\<close>

text \<open>
  C5, as the source has it. A line of the sample branch on which decoding raises is
  dropped: the loop state is unchanged, nothing is raised and the loop goes on with the
  next line. Decoding raises exactly when the split on the space does not give two
  tokens, when the name part has a \<^verbatim>\<open>{\<close> and no \<^verbatim>\<open>}\<close>, or when \<^verbatim>\<open>float\<close> rejects the
  value token. Label text that is not of the form \<^verbatim>\<open>key="value"\<close> is not among the
  failures: \<^verbatim>\<open>findall\<close> passes over it.
\<close>

theorem failed_decode_discards_line:
  assumes "is_sample_line line"
  shows "((\<exists>e. decode flt line = Inl e) =
            (case str_split CHR '' '' line of
               [np, vs] \<Rightarrow> (CHR ''{'' \<in> set np \<and> CHR ''}'' \<notin> set np) \<or> flt vs = None
             | _ \<Rightarrow> True))
         \<and> ((\<exists>e. decode flt line = Inl e) \<longrightarrow>
               process_line flt s line = Inr s
               \<and> run_lines flt s (line # ls) = run_lines flt s ls)"
  using assms decode_fails [of flt line] by (auto simp: sample_line_step)

text \<open>
  The document \<^verbatim>\<open>bad_metric_no_value\<close>, \<^verbatim>\<open>x 1\<close> parses to exactly one sample and no
  error.
\<close>

theorem failed_decode_discards_line_witness:
  "is_sample_line ''bad_metric_no_value''
   \<and> decode digits_float ''bad_metric_no_value'' = Inl ValueError
   \<and> parse_text digits_float [] (''bad_metric_no_value'' @ [CHR 0x0A] @ ''x 1'')
       = (None, \<lparr>metrics = [(''x'', 1, [], [])], current_help = [], current_type = [],
                 cache = [(''x'', \<lparr>meta_help = [], meta_type = []\<rparr>)]\<rparr>)"
proof -
  let ?s = "\<lparr>metrics = [], current_help = [], current_type = [], cache = []\<rparr>
              :: nat loop_state"
  have a: "is_sample_line ''bad_metric_no_value''"
    by (simp add: is_sample_line_def startswith_def strip_def isspace_def)
  have b: "decode digits_float ''bad_metric_no_value'' = Inl ValueError"
    by (simp add: decode_def)
  have "run_lines digits_float ?s [''bad_metric_no_value'', ''x 1'']
          = run_lines digits_float ?s [''x 1'']"
    using failed_decode_discards_line [OF a, of digits_float ?s "[''x 1'']"] b by simp
  moreover have "run_lines digits_float ?s [''x 1'']
          = (None, \<lparr>metrics = [(''x'', 1, [], [])], current_help = [], current_type = [],
                    cache = [(''x'', \<lparr>meta_help = [], meta_type = []\<rparr>)]\<rparr>)"
    by (simp add: sample_line_step [OF plain_sample_line] decode_plain_sample
        record_sample_def)
  ultimately show ?thesis
    using a b by (simp add: parse_text_def)
qed

text \<open>
  C5, as stated, counts malformed label syntax among the failures that drop the line. The
  line \<^verbatim>\<open>x{a=b} 1\<close> has a label block that is not \<^verbatim>\<open>key="value"\<close> text; it decodes, with
  no labels, and the parse returns it as a sample.
\<close>

theorem malformed_labels_line_is_kept:
  "is_sample_line ''x{a=b} 1''
   \<and> decode digits_float ''x{a=b} 1'' = Inr (''x'', 1, [])
   \<and> parse_text digits_float [] ''x{a=b} 1''
       = (None, \<lparr>metrics = [(''x'', 1, [], [])], current_help = [], current_type = [],
                 cache = [(''x'', \<lparr>meta_help = [], meta_type = []\<rparr>)]\<rparr>)"
proof -
  have a: "is_sample_line ''x{a=b} 1''"
    by (simp add: is_sample_line_def startswith_def strip_def isspace_def)
  have b: "decode digits_float ''x{a=b} 1'' = Inr (''x'', 1, [])"
    by (simp add: decode_def name_and_labels_def digits_float_def index_def rindex_def
        slice_def parse_labels_def findall.simps match_at_def word_char_def)
  show ?thesis
    using a b by (simp add: parse_text_def sample_line_step [OF a] record_sample_def)
qed

section \<open>The label block of a sample line\<close>

text \<open>
  C6, as the source has it. On a line of two tokens whose value \<^verbatim>\<open>float\<close> accepts and
  whose name part is \<open>name\<close>, \<^verbatim>\<open>{\<close>, \<open>raw\<close>, \<^verbatim>\<open>}\<close>, \<open>tail\<close> with no \<^verbatim>\<open>{\<close> in \<open>name\<close> and no \<^verbatim>\<open>}\<close>
  in \<open>tail\<close>, the metric name is \<open>name\<close> (the text before the first \<^verbatim>\<open>{\<close>) and the labels
  are parsed from \<open>raw\<close> (the text between the first \<^verbatim>\<open>{\<close> and the last \<^verbatim>\<open>}\<close>). The label
  dictionary has each key once and gives every key the value of its last pair in \<open>raw\<close>.
  When \<open>raw\<close> is a comma-separated list of pairs \<^verbatim>\<open>key="value"\<close>, the keys non-empty and of
  word characters, the values free of double quotes, the pairs found are exactly these,
  in textual order. A double quote ends a value whether or not a backslash precedes it.
\<close>

theorem label_block_is_parsed:
  assumes "str_split CHR '' '' line = [np, vs]" and "flt vs = Some v"
    and "np = name @ CHR ''{'' # raw @ CHR ''}'' # tail"
    and "CHR ''{'' \<notin> set name" and "CHR ''}'' \<notin> set tail"
  shows "decode flt line = Inr (name, v, parse_labels raw)
         \<and> distinct (map fst (parse_labels raw))
         \<and> map_of (parse_labels raw) = map_of (rev (findall raw))
         \<and> ((\<forall>p\<in>set ps. well_formed_pair p) \<and> raw = render_labels ps \<longrightarrow> findall raw = ps)"
proof -
  have "name_and_labels np = Inr (name, parse_labels raw)"
    using name_and_labels_block [OF assms(4,5)] assms(3) by simp
  then have "decode flt line = Inr (name, v, parse_labels raw)"
    using assms(1,2) by (simp add: decode_def)
  then show ?thesis
    using parse_labels_distinct [of raw] parse_labels_last_wins [of raw] findall_render [of ps]
    by simp
qed

theorem label_block_is_parsed_witness:
  "str_split CHR '' '' ex_label_line = [''m{'' @ render_labels ex_pairs @ ''}'', ''7'']
   \<and> list_all well_formed_pair ex_pairs
   \<and> decode digits_float ex_label_line = Inr (''m'', 7, [(''a'', ''3''), (''b'', ''2'')])
   \<and> findall (render_labels ex_pairs) = ex_pairs"
proof -
  have a: "str_split CHR '' '' ex_label_line = [''m{'' @ render_labels ex_pairs @ ''}'', ''7'']"
    by code_simp
  have b: "digits_float ''7'' = Some 7"
    by code_simp
  have c: "''m{'' @ render_labels ex_pairs @ ''}'' = ''m'' @ CHR ''{'' # render_labels ex_pairs @ CHR ''}'' # []"
    by simp
  have d: "CHR ''{'' \<notin> set ''m''" "CHR ''}'' \<notin> set []"
    by simp_all
  have w: "\<forall>p\<in>set ex_pairs. well_formed_pair p"
    by code_simp
  have e: "parse_labels (render_labels ex_pairs) = [(''a'', ''3''), (''b'', ''2'')]"
    by code_simp
  note t = label_block_is_parsed [where line = ex_label_line and flt = digits_float
      and vs = "''7''" and v = 7 and name = "''m''" and raw = "render_labels ex_pairs"
      and tail = "[]" and ps = ex_pairs, OF a b c d]
  from t have "decode digits_float ex_label_line = Inr (''m'', 7, parse_labels (render_labels ex_pairs))"
    by (rule conjunct1)
  moreover from t w have "findall (render_labels ex_pairs) = ex_pairs"
    by simp
  ultimately show ?thesis
    using a w e by (simp add: list_all_iff)
qed

text \<open>
  C6, as stated, lets a value hold any character other than an unescaped double quote.
  The value \<^verbatim>\<open>x\"y\<close> is of that kind, but in \<^verbatim>\<open>a="x\"y"\<close> the pattern ends the value at
  the escaped quote: the pair found is \<^verbatim>\<open>a\<close> with the two characters \<^verbatim>\<open>x\\<close>.
\<close>

theorem escaped_quote_ends_value:
  "spec_value_ok escaped_value
   \<and> findall (render_labels [(''a'', escaped_value)]) = [(''a'', [CHR ''x'', CHR 0x5C])]
   \<and> findall (render_labels [(''a'', escaped_value)]) \<noteq> [(''a'', escaped_value)]
   \<and> decode digits_float (''m{'' @ render_labels [(''a'', escaped_value)] @ ''} 1'')
       = Inr (''m'', 1, [(''a'', [CHR ''x'', CHR 0x5C])])"
  by code_simp

section \<open>Grouping by prefix\<close>

text \<open>
  C7. Whenever the cache guard of \<^verbatim>\<open>group_metrics\<close> yields a sample list (a non-empty
  cache as it is, by \<open>populated_cache\<close>), the method returns a dictionary with one key per
  prefix, the prefix of a name being its text before the first \<^verbatim>\<open>_\<close>
  (the whole name when it has none). The value of a prefix is the list of the distinct
  names of that list with that prefix, in the order of their first occurrence. On the names
  \<^verbatim>\<open>node_cpu_seconds_total\<close>, \<^verbatim>\<open>node_memory_bytes\<close>, \<^verbatim>\<open>go_gc_duration\<close> the result is
  \<^verbatim>\<open>{node: [node_cpu_seconds_total, node_memory_bytes], go: [go_gc_duration]}\<close>.
\<close>

theorem group_metrics_by_prefix:
  assumes "ensure_cache flt srv st = (Inr ms, st')"
  shows "\<exists>groups. group_metrics flt srv st = (Inr groups, st')
           \<and> distinct (map fst groups)
           \<and> (\<forall>p. map_of groups p =
                 (if filter (\<lambda>n. takeWhile (\<lambda>c. c \<noteq> CHR ''_'') n = p) (map fst ms) = [] then None
                  else Some (rev (remdups (rev
                         (filter (\<lambda>n. takeWhile (\<lambda>c. c \<noteq> CHR ''_'') n = p) (map fst ms)))))))"
proof -
  have "group_inv [] []"
    by (simp add: group_inv_def)
  from group_loop_inv [OF this, of ms] have "group_inv (group_loop ms []) (map fst ms)"
    by simp
  then show ?thesis
    using assms
    by (simp add: group_metrics_def group_inv_def first_token_takeWhile first_seen_def)
qed

theorem group_metrics_by_prefix_witness:
  "ensure_cache digits_float no_server ex_index = (Inr ex_samples, ex_index)
   \<and> group_metrics digits_float no_server ex_index
       = (Inr [(''node'', [''node_cpu_seconds_total'', ''node_memory_bytes'']),
               (''go'', [''go_gc_duration''])], ex_index)
   \<and> map_of [(''node'', [''node_cpu_seconds_total'', ''node_memory_bytes'']),
              (''go'', [''go_gc_duration''])] ''node''
       = Some (rev (remdups (rev (filter (\<lambda>n. takeWhile (\<lambda>c. c \<noteq> CHR ''_'') n = ''node'')
                 (map fst ex_samples)))))"
proof -
  let ?G = "[(''node'', [''node_cpu_seconds_total'', ''node_memory_bytes'']),
             (''go'', [''go_gc_duration''])]"
  have p: "metrics_cache ex_index = Some ex_samples" and q: "ex_samples \<noteq> []"
    using ex_index_populated by simp_all
  have c: "ensure_cache digits_float no_server ex_index = (Inr ex_samples, ex_index)"
    using p q by (rule populated_cache)
  have e: "group_metrics digits_float no_server ex_index = (Inr ?G, ex_index)"
    by code_simp
  have f: "filter (\<lambda>n. takeWhile (\<lambda>c. c \<noteq> CHR ''_'') n = ''node'') (map fst ex_samples) \<noteq> []"
    by code_simp
  from group_metrics_by_prefix [OF c]
  obtain groups where g: "group_metrics digits_float no_server ex_index = (Inr groups, ex_index)"
    and m: "map_of groups ''node'' =
       (if filter (\<lambda>n. takeWhile (\<lambda>c. c \<noteq> CHR ''_'') n = ''node'') (map fst ex_samples) = []
        then None
        else Some (rev (remdups (rev (filter (\<lambda>n. takeWhile (\<lambda>c. c \<noteq> CHR ''_'') n = ''node'')
                 (map fst ex_samples))))))"
    by blast
  from g e have "groups = ?G"
    by simp
  with m f have "map_of ?G ''node''
       = Some (rev (remdups (rev (filter (\<lambda>n. takeWhile (\<lambda>c. c \<noteq> CHR ''_'') n = ''node'')
                 (map fst ex_samples)))))"
    by simp
  with c e show ?thesis
    by blast
qed

section \<open>Details of a metric that is not there\<close>

text \<open>
  C8, as the source has it. \<^verbatim>\<open>show_metric_details\<close> raises only when the cache is \<^verbatim>\<open>None\<close>
  or the empty list and the fetch of its guard (lines 94-95) raises; the exception is
  that of the fetch. On a non-empty cache the guard sends nothing and yields the cache.
  Whenever the guard yields a sample list, the method returns normally, whatever the
  name: when the name has no metadata entry, no type or help line is printed; when no
  sample has the name, the list \<open>values\<close> is empty and the only line after the heading is
  the one of line 114. After the first fetch of a new explorer a name absent from the
  samples has no metadata entry either, so both hold.
\<close>

theorem details_of_absent_metric:
  "(show_metric_details flt srv st name = (Inl e, st2) \<longrightarrow>
      (metrics_cache st = None \<or> metrics_cache st = Some [])
      \<and> fetch_metrics flt srv st = (Inl e, st2))
   \<and> (metrics_cache st = Some ms \<and> ms \<noteq> [] \<longrightarrow> ensure_cache flt srv st = (Inr ms, st))
   \<and> (ensure_cache flt srv st = (Inr ms, st') \<longrightarrow>
        (\<exists>out. show_metric_details flt srv st name = (Inr out, st')
           \<and> (map_of (help_cache st') name = None \<longrightarrow>
                 (\<forall>x. TypeLine x \<notin> set out \<and> HelpLine x \<notin> set out))
           \<and> (name \<notin> fst ` set ms \<longrightarrow>
                 values_of ms name = [] \<and> NoValues \<in> set out
                 \<and> (\<forall>v l. ValueWithLabels v l \<notin> set out \<and> ValueOnly v \<notin> set out))
           \<and> (map_of (help_cache st') name = None \<and> name \<notin> fst ` set ms \<longrightarrow>
                 out = [Title name, Rule, CurrentValues, NoValues])
           \<and> (metrics_cache st = None \<and> help_cache st = [] \<and> name \<notin> fst ` set ms \<longrightarrow>
                 out = [Title name, Rule, CurrentValues, NoValues])))"
proof (intro conjI impI)
  assume "show_metric_details flt srv st name = (Inl e, st2)"
  from details_raise_only_from_fetch [OF this]
  show "metrics_cache st = None \<or> metrics_cache st = Some []"
    and "fetch_metrics flt srv st = (Inl e, st2)"
    by simp_all
next
  assume "metrics_cache st = Some ms \<and> ms \<noteq> []"
  then show "ensure_cache flt srv st = (Inr ms, st)"
    by (simp add: populated_cache)
next
  assume "ensure_cache flt srv st = (Inr ms, st')"
  then show "\<exists>out. show_metric_details flt srv st name = (Inr out, st')
           \<and> (map_of (help_cache st') name = None \<longrightarrow>
                 (\<forall>x. TypeLine x \<notin> set out \<and> HelpLine x \<notin> set out))
           \<and> (name \<notin> fst ` set ms \<longrightarrow>
                 values_of ms name = [] \<and> NoValues \<in> set out
                 \<and> (\<forall>v l. ValueWithLabels v l \<notin> set out \<and> ValueOnly v \<notin> set out))
           \<and> (map_of (help_cache st') name = None \<and> name \<notin> fst ` set ms \<longrightarrow>
                 out = [Title name, Rule, CurrentValues, NoValues])
           \<and> (metrics_cache st = None \<and> help_cache st = [] \<and> name \<notin> fst ` set ms \<longrightarrow>
                 out = [Title name, Rule, CurrentValues, NoValues])"
    by (rule details_from_guard)
qed

theorem details_of_absent_metric_witness:
  "ensure_cache digits_float serve_example init
     = (Inr [(''x'', 1, [], ''first''), (''x'', 2, [], ''second'')], example_index)
   \<and> show_metric_details digits_float serve_example init ''missing_metric''
       = (Inr [Title ''missing_metric'', Rule, CurrentValues, NoValues], example_index)
   \<and> metrics_cache ex_index = Some ex_samples \<and> ex_samples \<noteq> []
   \<and> ensure_cache digits_float no_server ex_index = (Inr ex_samples, ex_index)
   \<and> show_metric_details digits_float empty_then_down
         \<lparr>metrics_cache = Some [], help_cache = [], requests = 1\<rparr> ''missing_metric''
       = (Inl TransportError, \<lparr>metrics_cache = Some [], help_cache = [], requests = 2\<rparr>)
   \<and> fetch_metrics digits_float empty_then_down
         \<lparr>metrics_cache = Some [], help_cache = [], requests = 1\<rparr>
       = (Inl TransportError, \<lparr>metrics_cache = Some [], help_cache = [], requests = 2\<rparr>)"
proof -
  let ?st1 = "\<lparr>metrics_cache = Some [], help_cache = [], requests = 1\<rparr> :: nat explorer"
  let ?st2 = "\<lparr>metrics_cache = Some [], help_cache = [], requests = 2\<rparr> :: nat explorer"
  have i: "metrics_cache (init :: nat explorer) = None \<and> help_cache (init :: nat explorer) = []
      \<and> ''missing_metric'' \<notin> fst ` set [(''x'', 1::nat, [] :: labels, ''first''), (''x'', 2, [], ''second'')]"
    by (simp add: init_def)
  note t = details_of_absent_metric [where flt = digits_float and srv = serve_example
      and st = init and name = "''missing_metric''"
      and ms = "[(''x'', 1, [], ''first''), (''x'', 2, [], ''second'')]" and st' = example_index]
  from t [THEN conjunct2, THEN conjunct2, THEN mp, OF ensure_example]
  obtain out where o: "show_metric_details digits_float serve_example init ''missing_metric''
       = (Inr out, example_index)"
    and f: "metrics_cache (init :: nat explorer) = None \<and> help_cache (init :: nat explorer) = []
      \<and> ''missing_metric'' \<notin> fst ` set [(''x'', 1::nat, [] :: labels, ''first''), (''x'', 2, [], ''second'')]
      \<longrightarrow> out = [Title ''missing_metric'', Rule, CurrentValues, NoValues]"
    by (elim exE conjE) (rule that, assumption+)
  from f i have "out = [Title ''missing_metric'', Rule, CurrentValues, NoValues]"
    by (rule mp)
  with o have a: "show_metric_details digits_float serve_example init ''missing_metric''
       = (Inr [Title ''missing_metric'', Rule, CurrentValues, NoValues], example_index)"
    by simp
  have p: "metrics_cache ex_index = Some ex_samples \<and> ex_samples \<noteq> []"
    by (rule ex_index_populated)
  have b: "ensure_cache digits_float no_server ex_index = (Inr ex_samples, ex_index)"
    by (rule details_of_absent_metric [THEN conjunct2, THEN conjunct1, THEN mp, OF p])
  have r: "show_metric_details digits_float empty_then_down ?st1 ''missing_metric''
       = (Inl TransportError, ?st2)"
    by code_simp
  have c: "fetch_metrics digits_float empty_then_down ?st1 = (Inl TransportError, ?st2)"
    using details_of_absent_metric [THEN conjunct1, THEN mp, OF r] by (rule conjunct2)
  from ensure_example a p b r c show ?thesis
    by (intro conjI) simp_all
qed

text \<open>
  C8, as stated, has the lookup never raise on any parsed document. Against an endpoint
  that first answers the empty text and then fails, the first lookup parses the empty
  document, prints that there are no values and leaves the empty list in the cache; the
  second lookup of the same name fetches again and raises the transport error.
\<close>

theorem details_after_empty_parse_can_raise:
  "show_metric_details digits_float empty_then_down init ''missing_metric''
     = (Inr [Title ''missing_metric'', Rule, CurrentValues, NoValues],
        \<lparr>metrics_cache = Some [], help_cache = [], requests = 1\<rparr>)
   \<and> show_metric_details digits_float empty_then_down
         \<lparr>metrics_cache = Some [], help_cache = [], requests = 1\<rparr> ''missing_metric''
       = (Inl TransportError, \<lparr>metrics_cache = Some [], help_cache = [], requests = 2\<rparr>)"
  by code_simp

section \<open>A label block that is not closed\<close>

text \<open>
  C9, as the source has it. On a line of the sample branch whose name part (the text
  before the first space) has a \<^verbatim>\<open>{\<close> and no \<^verbatim>\<open>}\<close>, \<^verbatim>\<open>rindex\<close> raises, the exception
  is absorbed, the loop state is unchanged and the loop goes on. When the name part has
  a \<^verbatim>\<open>}\<close> anywhere, \<^verbatim>\<open>rindex\<close> finds it and nothing is raised there: a line of two tokens
  with a value \<^verbatim>\<open>float\<close> accepts decodes to a sample named by the text before the first
  \<^verbatim>\<open>{\<close>, and when every \<^verbatim>\<open>}\<close> stands before the first \<^verbatim>\<open>{\<close> the slice is empty and the
  sample has no labels.
\<close>

theorem unclosed_label_block_skipped:
  assumes "is_sample_line line" and "np = takeWhile (\<lambda>c. c \<noteq> CHR '' '') line"
    and "CHR ''{'' \<in> set np"
  shows "(CHR ''}'' \<notin> set np \<longrightarrow>
            process_line flt s line = Inr s
            \<and> run_lines flt s (line # ls) = run_lines flt s ls)
         \<and> (CHR ''}'' \<in> set np \<and> str_split CHR '' '' line = [np, vs] \<and> flt vs = Some v \<longrightarrow>
              (\<exists>labels. decode flt line = Inr (takeWhile (\<lambda>c. c \<noteq> CHR ''{'') np, v, labels)
                 \<and> (CHR ''}'' \<notin> set (dropWhile (\<lambda>c. c \<noteq> CHR ''{'') np) \<longrightarrow> labels = [])))"
proof (intro conjI impI)
  assume nb: "CHR ''}'' \<notin> set np"
  obtain t ts where sp: "str_split CHR '' '' line = t # ts"
    using str_split_not_Nil [of "CHR '' ''" line] by (cases "str_split CHR '' '' line") auto
  then have "t = np"
    using str_split_head assms(2) by blast
  with sp nb assms(3) have "\<exists>e. decode flt line = Inl e"
    by (simp add: decode_fails split: list.splits)
  then show "process_line flt s line = Inr s"
    and "run_lines flt s (line # ls) = run_lines flt s ls"
    by (auto simp: sample_line_step [OF assms(1)])
next
  assume h: "CHR ''}'' \<in> set np \<and> str_split CHR '' '' line = [np, vs] \<and> flt vs = Some v"
  then obtain labels where
    "name_and_labels np = Inr (takeWhile (\<lambda>c. c \<noteq> CHR ''{'') np, labels)"
    "CHR ''}'' \<notin> set (dropWhile (\<lambda>c. c \<noteq> CHR ''{'') np) \<longrightarrow> labels = []"
    using name_and_labels_braces [OF assms(3)] by blast
  with h show "\<exists>labels. decode flt line = Inr (takeWhile (\<lambda>c. c \<noteq> CHR ''{'') np, v, labels)
                 \<and> (CHR ''}'' \<notin> set (dropWhile (\<lambda>c. c \<noteq> CHR ''{'') np) \<longrightarrow> labels = [])"
    by (simp add: decode_def)
qed


theorem unclosed_label_block_skipped_witness:
  "is_sample_line ''x{a 1''
   \<and> run_lines digits_float
         \<lparr>metrics = [], current_help = [], current_type = [], cache = []\<rparr> [''x{a 1'', ''x 1'']
       = run_lines digits_float
           \<lparr>metrics = [], current_help = [], current_type = [], cache = []\<rparr> [''x 1'']
   \<and> is_sample_line ''a}b{c 1''
   \<and> decode digits_float ''a}b{c 1'' = Inr (''a}b'', 1, [])"
proof -
  have a: "is_sample_line ''x{a 1''"
    by (simp add: is_sample_line_def startswith_def strip_def isspace_def)
  have b: "is_sample_line ''a}b{c 1''"
    by (simp add: is_sample_line_def startswith_def strip_def isspace_def)
  have "run_lines digits_float
         \<lparr>metrics = [], current_help = [], current_type = [], cache = []\<rparr> [''x{a 1'', ''x 1'']
       = run_lines digits_float
           \<lparr>metrics = [], current_help = [], current_type = [], cache = []\<rparr> [''x 1'']"
    using unclosed_label_block_skipped [OF a, of "''x{a''" digits_float
        "\<lparr>metrics = [], current_help = [], current_type = [], cache = []\<rparr>" "[''x 1'']"]
    by simp
  moreover have "decode digits_float ''a}b{c 1'' = Inr (''a}b'', 1, [])"
    using unclosed_label_block_skipped [OF b, of "''a}b{c''" digits_float _ _ "''1''" 1]
    by (simp add: digits_float_def)
  ultimately show ?thesis
    using a b by simp
qed

text \<open>
  C9, as stated, also has the line skipped when the last \<^verbatim>\<open>}\<close> precedes the first \<^verbatim>\<open>{\<close>.
  In \<^verbatim>\<open>a}b{c 1\<close> the last \<^verbatim>\<open>}\<close> is at position 1 and the first \<^verbatim>\<open>{\<close> at position 3; the
  line is not skipped, it is returned as the sample \<^verbatim>\<open>a}b\<close> with value 1.
\<close>

theorem brace_before_block_line_is_kept:
  "index ''a}b{c'' CHR ''{'' = Inr 3
   \<and> rindex ''a}b{c'' CHR ''}'' = Inr 1
   \<and> parse_text digits_float [] ''a}b{c 1''
       = (None, \<lparr>metrics = [(''a}b'', 1, [], [])], current_help = [], current_type = [],
                 cache = [(''a}b'', \<lparr>meta_help = [], meta_type = []\<rparr>)]\<rparr>)"
proof -
  have a: "is_sample_line ''a}b{c 1''"
    by (simp add: is_sample_line_def startswith_def strip_def isspace_def)
  have b: "decode digits_float ''a}b{c 1'' = Inr (''a}b'', 1, [])"
    by (simp add: decode_def name_and_labels_def digits_float_def index_def rindex_def
        slice_def parse_labels_Nil)
  show ?thesis
    using b by (simp add: parse_text_def sample_line_step [OF a] record_sample_def
        index_def rindex_def)
qed

section \<open>Search with the empty term\<close>

text \<open>
  C10. The empty term is a substring of every name, so the search for it returns one
  triple for every distinct name of the sample list the cache guard yields, in the order
  in which the names first occur, each with the help text and the value of the first
  sample of its name.
\<close>

theorem search_empty_term_lists_every_name:
  assumes "ensure_cache flt srv st = (Inr ms, st')"
  shows "\<exists>results. search_metrics flt srv st [] = (Inr results, st')
     \<and> distinct (map fst results)
     \<and> map fst results = rev (remdups (rev (map fst ms)))
     \<and> fst ` set results = fst ` set ms
     \<and> (\<forall>(n, h, v)\<in>set results. \<exists>l. find (\<lambda>s. fst s = n) ms = Some (n, v, l, h))"
proof -
  let ?r = "search_loop [] ms [] {}"
  have all: "filter (matches []) ms = ms"
    by (simp add: matches_empty)
  have names: "map fst ?r = first_seen (map fst ms)"
    and firsts: "\<forall>r\<in>set ?r. \<exists>l.
         find (\<lambda>s. fst s = fst r) ms = Some (fst r, snd (snd r), l, fst (snd r))"
    using search_loop_spec [of "[]" ms] by (simp_all add: all matches_empty)
  have "fst ` set ?r = set (map fst ?r)"
    by simp
  also have "\<dots> = fst ` set ms"
    by (simp only: names set_first_seen set_map)
  finally have dom: "fst ` set ?r = fst ` set ms" .
  have "search_metrics flt srv st [] = (Inr ?r, st')"
    using assms by (simp add: search_metrics_def)
  moreover have "distinct (map fst ?r)"
    by (simp only: names distinct_first_seen)
  moreover have "map fst ?r = rev (remdups (rev (map fst ms)))"
    using names by (simp add: first_seen_def)
  moreover have "\<forall>(n, h, v)\<in>set ?r. \<exists>l. find (\<lambda>s. fst s = n) ms = Some (n, v, l, h)"
  proof clarify
    fix n h v
    assume "(n, h, v) \<in> set ?r"
    from firsts [rule_format, OF this]
    show "\<exists>l. find (\<lambda>s. fst s = n) ms = Some (n, v, l, h)"
      by simp
  qed
  ultimately show ?thesis
    using dom by (intro exI [of _ ?r] conjI) assumption+
qed


theorem search_empty_term_lists_every_name_witness:
  "ensure_cache digits_float no_server ex_index = (Inr ex_samples, ex_index)
   \<and> search_metrics digits_float no_server ex_index []
       = (Inr [(''node_cpu_seconds_total'', ''CPU time'', 1), (''node_memory_bytes'', ''Memory'', 2),
               (''go_gc_duration'', ''GC'', 4)], ex_index)
   \<and> rev (remdups (rev (map fst ex_samples)))
       = [''node_cpu_seconds_total'', ''node_memory_bytes'', ''go_gc_duration'']"
proof -
  have p: "metrics_cache ex_index = Some ex_samples" and q: "ex_samples \<noteq> []"
    using ex_index_populated by simp_all
  have c: "ensure_cache digits_float no_server ex_index = (Inr ex_samples, ex_index)"
    using p q by (rule populated_cache)
  have e: "search_metrics digits_float no_server ex_index []
       = (Inr [(''node_cpu_seconds_total'', ''CPU time'', 1), (''node_memory_bytes'', ''Memory'', 2),
               (''go_gc_duration'', ''GC'', 4)], ex_index)"
    by code_simp
  from search_empty_term_lists_every_name [OF c]
  obtain results where r: "search_metrics digits_float no_server ex_index [] = (Inr results, ex_index)"
    and n: "map fst results = rev (remdups (rev (map fst ex_samples)))"
    by blast
  from r e have "results = [(''node_cpu_seconds_total'', ''CPU time'', 1),
      (''node_memory_bytes'', ''Memory'', 2), (''go_gc_duration'', ''GC'', 4)]"
    by simp
  with n have "rev (remdups (rev (map fst ex_samples)))
       = [''node_cpu_seconds_total'', ''node_memory_bytes'', ''go_gc_duration'']"
    by simp
  with c e show ?thesis
    by simp
qed

end
